theory Spec2Isabelle
  imports Complex_Main "HOL-Library.Word"
begin

section \<open>JavaScript strings\<close>

text \<open>
  A JavaScript string is a sequence of 16-bit code units; \<open>length\<close>, \<open>substring\<close>,
  \<open>indexOf\<close> and the (non-unicode) regular expressions of the importer all count code
  units. ASCII literals of the source are written \<open>js ''...''\<close>; the Chinese literals are
  given by their code units.
\<close>

type_synonym jschar = "16 word"
type_synonym jsstring = "jschar list"

definition js :: "string \<Rightarrow> jsstring" where
  "js s = map of_char s"

text \<open>The regular-expression class \<open>\s\<close>, which is also the set \<open>trim()\<close> strips.\<close>

definition isWhiteSpace :: "jschar \<Rightarrow> bool" where
  "isWhiteSpace c \<longleftrightarrow>
     c = 0x9 \<or> c = 0xA \<or> c = 0xB \<or> c = 0xC \<or> c = 0xD \<or> c = 0x20 \<or> c = 0xA0 \<or>
     c = 0x1680 \<or> (0x2000 \<le> c \<and> c \<le> 0x200A) \<or> c = 0x2028 \<or> c = 0x2029 \<or>
     c = 0x202F \<or> c = 0x205F \<or> c = 0x3000 \<or> c = 0xFEFF"

text \<open>The characters the regular-expression dot does not match.\<close>

definition isLineTerminator :: "jschar \<Rightarrow> bool" where
  "isLineTerminator c \<longleftrightarrow> c = 0xA \<or> c = 0xD \<or> c = 0x2028 \<or> c = 0x2029"

text \<open>The classes \<open>\w\<close> and \<open>\d\<close>.\<close>

definition isWordChar :: "jschar \<Rightarrow> bool" where
  "isWordChar c \<longleftrightarrow>
     (0x30 \<le> c \<and> c \<le> 0x39) \<or> (0x41 \<le> c \<and> c \<le> 0x5A) \<or> c = 0x5F \<or> (0x61 \<le> c \<and> c \<le> 0x7A)"

definition isDigit :: "jschar \<Rightarrow> bool" where
  "isDigit c \<longleftrightarrow> 0x30 \<le> c \<and> c \<le> 0x39"

definition trim :: "jsstring \<Rightarrow> jsstring" where
  "trim s = rev (dropWhile isWhiteSpace (rev (dropWhile isWhiteSpace s)))"

definition startsWith :: "jsstring \<Rightarrow> jsstring \<Rightarrow> bool" where
  "startsWith p s \<longleftrightarrow> take (length p) s = p"

definition endsWith :: "jsstring \<Rightarrow> jsstring \<Rightarrow> bool" where
  "endsWith p s \<longleftrightarrow> length p \<le> length s \<and> drop (length s - length p) s = p"

text \<open>
  \<open>s.substring(a, b)\<close>: both indices are clamped to the length and swapped when
  \<open>a > b\<close>. \<open>s.substring(a)\<close> is \<open>drop a s\<close>.
\<close>

definition substring :: "nat \<Rightarrow> nat \<Rightarrow> jsstring \<Rightarrow> jsstring" where
  "substring a b s =
     (let a' = min a (length s); b' = min b (length s)
      in take (max a' b' - min a' b') (drop (min a' b') s))"

text \<open>\<open>s.indexOf(needle)\<close>, with \<open>None\<close> for \<open>-1\<close>.\<close>

fun indexOf :: "jsstring \<Rightarrow> jsstring \<Rightarrow> nat option" where
  "indexOf needle [] = (if needle = [] then Some 0 else None)"
| "indexOf needle (c # cs) =
     (if startsWith needle (c # cs) then Some 0 else map_option Suc (indexOf needle cs))"

text \<open>\<open>s.split(sep)\<close> for a one-unit separator: never empty, \<open>"".split(sep) = [""]\<close>.\<close>

fun split_on :: "jschar \<Rightarrow> jsstring \<Rightarrow> jsstring list" where
  "split_on sep [] = [[]]"
| "split_on sep (c # cs) =
     (if c = sep then [] # split_on sep cs
      else (case split_on sep cs of [] \<Rightarrow> [[c]] | x # xs \<Rightarrow> (c # x) # xs))"

text \<open>The integer a string of decimal digits denotes.\<close>

definition digit_val :: "jschar \<Rightarrow> nat" where
  "digit_val c = unat c - 48"

definition decimal :: "jsstring \<Rightarrow> nat" where
  "decimal ds = foldl (\<lambda>n c. 10 * n + digit_val c) 0 ds"

text \<open>
  A non-negative Number with an integer value, or \<open>Infinity\<close>. \<open>Number n\<close> is only built
  for an \<open>n\<close> that a double represents. \<open>to_number n\<close> is the Number nearest to the
  integer \<open>n\<close>, a tie going to the even significand: below \<open>2^53\<close> it is \<open>n\<close> itself, and
  what rounds to \<open>2^1024\<close> or more is \<open>Infinity\<close>.
\<close>

datatype jsnumber = Number nat | PosInfinity

function bit_length :: "nat \<Rightarrow> nat" where
  "bit_length n = (if n = 0 then 0 else Suc (bit_length (n div 2)))"
  by pat_completeness auto
termination
  by (relation "measure id") auto

declare bit_length.simps [simp del]

definition to_number :: "nat \<Rightarrow> jsnumber" where
  "to_number n =
     (if bit_length n \<le> 53 then Number n
      else
        (let e = bit_length n - 53;
             q = n div 2 ^ e;
             r = n mod 2 ^ e;
             half = 2 ^ (e - 1);
             q' = (if half < r \<or> (r = half \<and> odd q) then q + 1 else q)
         in if 2 ^ 1024 \<le> q' * 2 ^ e then PosInfinity else Number (q' * 2 ^ e)))"

text \<open>
  \<open>parseInt\<close> on a string the regular expression \<open>\d+\<close> has matched: the Number for the
  integer the digits denote. (Past the twentieth significant digit the language lets an
  implementation read the further digits as zeros; the model reads them all.)
\<close>

definition parseInt :: "jsstring \<Rightarrow> jsnumber" where
  "parseInt ds = to_number (decimal ds)"

text \<open>Case folding of the \<open>/i\<close> flag: only ASCII letters fold onto ASCII letters.\<close>

definition toLowerASCII :: "jschar \<Rightarrow> jschar" where
  "toLowerASCII c = (if 0x41 \<le> c \<and> c \<le> 0x5A then c + 0x20 else c)"


section \<open>The parsed graph (parser.ts)\<close>

text \<open>
  \<open>LogseqBlock\<close> objects are shared by reference between the parser's stack, the
  parent's \<open>children\<close> array and \<open>currentBlock\<close>, and are mutated through all three.
  They live in a store; a reference is the address (position) of the object in the store.
  The parser allocates one object per block line, so addresses follow document order.
\<close>

type_synonym ref = nat

record LogseqBlock =
  block_id :: "jsstring option"
  content :: jsstring
  properties :: "(jsstring \<times> jsstring) list"
  children :: "ref list"
  level :: rat

record LogseqPage =
  name :: jsstring
  page_properties :: "(jsstring \<times> jsstring) list"
  page_blocks :: "ref list"
  store :: "LogseqBlock list"

record LogseqGraph =
  pages :: "(jsstring \<times> LogseqPage) list"
  blocks :: "jsstring \<rightharpoonup> LogseqBlock"


record LogseqFile =
  path :: jsstring
  file_content :: jsstring

text \<open>
  \<^verbatim>\<open>PROPERTY_REGEX = /^(\w+):: (.+)$/\<close>: the greedy \<open>\w+\<close> must stop where \<open>:: \<close>
  starts, and \<open>(.+)$\<close> is the non-empty rest of the string, without a line terminator.
  The result is groups 1 and 2.
\<close>

definition dot_plus_end :: "jsstring \<Rightarrow> bool" where
  "dot_plus_end s \<longleftrightarrow> s \<noteq> [] \<and> list_all (\<lambda>c. \<not> isLineTerminator c) s"

definition property_match :: "jsstring \<Rightarrow> (jsstring \<times> jsstring) option" where
  "property_match s =
     (let key = takeWhile isWordChar s; r = dropWhile isWordChar s
      in if key \<noteq> [] \<and> startsWith (js '':: '') r \<and> dot_plus_end (drop 3 r)
         then Some (key, drop 3 r) else None)"

text \<open>\<^verbatim>\<open>ID_REGEX = /^id:: (.+)$/\<close>. The result is group 1.\<close>

definition id_match :: "jsstring \<Rightarrow> jsstring option" where
  "id_match s =
     (if startsWith (js ''id:: '') s \<and> dot_plus_end (drop 5 s) then Some (drop 5 s) else None)"

text \<open>
  A \<open>Record<string, any>\<close> that started as \<open>{}\<close> is the list of its own properties in
  the order in which \<open>Object.keys\<close> and \<open>Object.entries\<close> enumerate them: first the keys
  that are array indices (the canonical decimal of an integer below \<open>2^32 - 1\<close>) in
  ascending numeric order, then the other keys in the order of their creation. Canonical
  decimals are compared by their digits: the shorter one is the smaller, and two of the
  same length compare as their digits do from the left; \<open>2^32 - 1\<close> is \<open>4294967295\<close>.
\<close>

definition decimal_less :: "jsstring \<Rightarrow> jsstring \<Rightarrow> bool" where
  "decimal_less a b \<longleftrightarrow> length a < length b \<or> (length a = length b \<and> lexordp (<) a b)"

definition is_array_index :: "jsstring \<Rightarrow> bool" where
  "is_array_index k \<longleftrightarrow>
     k \<noteq> [] \<and> list_all isDigit k \<and> (k = js ''0'' \<or> hd k \<noteq> 0x30) \<and>
     decimal_less k (js ''4294967295'')"

fun insert_index ::
  "jsstring \<Rightarrow> jsstring \<Rightarrow> (jsstring \<times> jsstring) list \<Rightarrow> (jsstring \<times> jsstring) list" where
  "insert_index k v [] = [(k, v)]"
| "insert_index k v ((k', v') # ps) =
     (if is_array_index k' \<and> decimal_less k' k then (k', v') # insert_index k v ps
      else (k, v) # (k', v') # ps)"

text \<open>
  \<open>obj[key] = v\<close>: an own property is replaced in place, a new one is created; the key
  \<open>__proto__\<close> reaches the prototype's setter, which ignores a string.
\<close>

definition obj_set ::
  "jsstring \<Rightarrow> jsstring \<Rightarrow> (jsstring \<times> jsstring) list \<Rightarrow> (jsstring \<times> jsstring) list" where
  "obj_set k v ps =
     (if k = js ''__proto__'' then ps
      else if k \<in> fst ` set ps then map (\<lambda>(k', v'). if k' = k then (k', v) else (k', v')) ps
      else if is_array_index k then insert_index k v ps
      else ps @ [(k, v)])"

text \<open>\<^verbatim>\<open>file.path.replace(/\.md$/, "").split("/").pop() || "Untitled"\<close>\<close>

definition page_name_of :: "jsstring \<Rightarrow> jsstring" where
  "page_name_of p =
     (let stem = (if endsWith (js ''.md'') p then take (length p - 3) p else p);
          seg = last (split_on 0x2F stem)
      in if seg \<noteq> [] then seg else js ''Untitled'')"

text \<open>
  The local variables of \<open>parseLogseqFile\<close>. \<open>blockStack\<close> is kept with its top (the
  last element of the array) first.
\<close>

record parser_state =
  page :: LogseqPage
  currentBlock :: "ref option"
  blockStack :: "ref list"
  isFirstBlock :: bool

text \<open>
  \<^verbatim>\<open>while (blockStack.length > 0 && blockStack[blockStack.length - 1].level >= level)
    blockStack.pop();\<close>
\<close>

fun pop_stack :: "LogseqBlock list \<Rightarrow> rat \<Rightarrow> ref list \<Rightarrow> ref list" where
  "pop_stack st lv [] = []"
| "pop_stack st lv (b # rest) =
     (if level (st ! b) \<ge> lv then pop_stack st lv rest else b # rest)"

definition isBlockLine :: "jsstring \<Rightarrow> bool" where
  "isBlockLine line \<longleftrightarrow> startsWith (js ''- '') (trim line)"

text \<open>\<^verbatim>\<open>(line.match(/^\s*/)?.[0].length || 0) / 2\<close>, a JavaScript number.\<close>

definition line_level :: "jsstring \<Rightarrow> rat" where
  "line_level line = of_nat (length (takeWhile isWhiteSpace line)) / 2"

text \<open>The branch \<open>if (isBlockLine)\<close>: allocate the block, link it, push it.\<close>

definition add_block :: "parser_state \<Rightarrow> jsstring \<Rightarrow> parser_state" where
  "add_block s line =
     (let pg = page s;
          newBlock = \<lparr>block_id = None, content = drop 2 (trim line), properties = [],
                      children = [], level = line_level line\<rparr>;
          new = length (store pg);
          stack = pop_stack (store pg) (line_level line) (blockStack s);
          pg' = (case stack of
                   [] \<Rightarrow> pg\<lparr>page_blocks := page_blocks pg @ [new]\<rparr>
                 | parent # _ \<Rightarrow>
                     pg\<lparr>store := (store pg)
                          [parent := (store pg ! parent)
                             \<lparr>children := children (store pg ! parent) @ [new]\<rparr>]\<rparr>)
      in s\<lparr>page := pg'\<lparr>store := store pg' @ [newBlock]\<rparr>,
            currentBlock := Some new,
            blockStack := new # stack,
            isFirstBlock := False\<rparr>)"

text \<open>The branch \<open>else if (currentBlock)\<close>: an id line, else a property line, else nothing.\<close>

definition continuation_line :: "parser_state \<Rightarrow> ref \<Rightarrow> jsstring \<Rightarrow> parser_state" where
  "continuation_line s cur trimmedLine =
     (let pg = page s; b = store pg ! cur
      in case id_match trimmedLine of
           Some v \<Rightarrow> s\<lparr>page := pg\<lparr>store := (store pg)[cur := b\<lparr>block_id := Some v\<rparr>]\<rparr>\<rparr>
         | None \<Rightarrow>
             (case property_match trimmedLine of
                Some (k, v) \<Rightarrow>
                  s\<lparr>page := pg\<lparr>store := (store pg)
                                 [cur := b\<lparr>properties := obj_set k v (properties b)\<rparr>]\<rparr>\<rparr>
              | None \<Rightarrow> s))"

text \<open>The body of \<open>for (const line of lines)\<close>.\<close>

definition process_line :: "parser_state \<Rightarrow> jsstring \<Rightarrow> parser_state" where
  "process_line s line =
     (let trimmedLine = trim line
      in if trimmedLine = [] then s
         else if isFirstBlock s \<and> \<not> isBlockLine line then
           (case property_match trimmedLine of
              Some (k, v) \<Rightarrow>
                s\<lparr>page := (page s)\<lparr>page_properties := obj_set k v (page_properties (page s))\<rparr>\<rparr>
            | None \<Rightarrow> s)
         else if isBlockLine line then add_block s line
         else (case currentBlock s of
                 Some cur \<Rightarrow> continuation_line s cur trimmedLine
               | None \<Rightarrow> s))"

definition initial_state :: "LogseqFile \<Rightarrow> parser_state" where
  "initial_state file =
     \<lparr>page = \<lparr>name = page_name_of (path file), page_properties = [], page_blocks = [],
              store = []\<rparr>,
      currentBlock = None, blockStack = [], isFirstBlock = True\<rparr>"

definition parse_lines :: "LogseqFile \<Rightarrow> jsstring list \<Rightarrow> parser_state" where
  "parse_lines file ls = foldl process_line (initial_state file) ls"

definition parseLogseqFile :: "LogseqFile \<Rightarrow> LogseqPage" where
  "parseLogseqFile file = page (parse_lines file (split_on 0xA (file_content file)))"


section \<open>The inline syntax transformer (importer.ts, parseContentToFragments)\<close>

text \<open>
  \<open>ContentFragment\<close> objects as the transformer builds them: \<open>t\<close> and \<open>v\<close> always,
  \<open>q\<close> on block references and embeds, \<open>a\<close>, \<open>w\<close>, \<open>h\<close> on images, \<open>f\<close> and
  \<open>fa = {l, t}\<close> on attachment links.
\<close>

record ContentFragment =
  frag_t :: jsstring
  frag_v :: jsstring
  frag_q :: "jsstring option"
  frag_a :: "jsstring option"
  frag_w :: "jsnumber option"
  frag_h :: "jsnumber option"
  frag_f :: "jsstring option"
  frag_fa :: "(jsstring \<times> jsstring) option"

definition text_fragment :: "jsstring \<Rightarrow> ContentFragment" where
  "text_fragment s =
     \<lparr>frag_t = js ''t'', frag_v = s, frag_q = None, frag_a = None, frag_w = None,
      frag_h = None, frag_f = None, frag_fa = None\<rparr>"

definition page_ref_fragment :: "jsstring \<Rightarrow> ContentFragment" where
  "page_ref_fragment s = (text_fragment s)\<lparr>frag_t := js ''r''\<rparr>"

definition block_ref_fragment :: "jsstring \<Rightarrow> jsstring \<Rightarrow> ContentFragment" where
  "block_ref_fragment s uuid = (text_fragment s)\<lparr>frag_t := js ''r'', frag_q := Some uuid\<rparr>"

text \<open>The template literal of the placeholder for a missing block, and of a missing attachment.\<close>

definition blockNotFound :: "jsstring \<Rightarrow> jsstring" where
  "blockNotFound uuid = [0x672A, 0x627E, 0x5230, 0x7684, 0x5757, 0x3A, 0x20] @ uuid"

definition attachmentNotFound :: "jsstring \<Rightarrow> jsstring" where
  "attachmentNotFound localPath =
     [0x5B, 0x9644, 0x4EF6, 0x672A, 0x627E, 0x5230, 0x3A, 0x20] @ localPath @ js '']''"

text \<open>
  \<open>block?.content || placeholder\<close>: a missing block and a block whose content is the empty
  (falsy) string both give the placeholder.
\<close>

definition block_ref_value :: "LogseqGraph \<Rightarrow> jsstring \<Rightarrow> jsstring" where
  "block_ref_value graph uuid =
     (case blocks graph uuid of
        None \<Rightarrow> blockNotFound uuid
      | Some block \<Rightarrow> if content block \<noteq> [] then content block else blockNotFound uuid)"

subsection \<open>ATTACHMENT\_REGEX\<close>

text \<open>
  \<^verbatim>\<open>/(!?\[(.*?)\]\((.*?)\))\s*(\{:(.*?)\})?/\<close>, by the backtracking semantics of the
  regular expression: each lazy \<open>.*?\<close> first tries what follows it and, when that fails,
  takes one more character that is not a line terminator.
\<close>

record attachment_match =
  fullMatch :: jsstring
  altText :: jsstring
  localPath :: jsstring
  attrs :: "jsstring option"

text \<open>The group \<open>(.*?)\}\<close>: the capture and the text after the brace.\<close>

fun attrs_lazy :: "jsstring \<Rightarrow> jsstring \<Rightarrow> (jsstring \<times> jsstring) option" where
  "attrs_lazy acc [] = None"
| "attrs_lazy acc (c # cs) =
     (if c = 0x7D then Some (acc, cs)
      else if isLineTerminator c then None
      else attrs_lazy (acc @ [c]) cs)"

text \<open>
  \<open>\s*(\{:(.*?)\})?\<close> after the closing parenthesis: the greedy whitespace, then the
  optional group, skipped when it does not match. Returns the text matched and group 5.
\<close>

definition attachment_tail :: "jsstring \<Rightarrow> jsstring \<times> jsstring option" where
  "attachment_tail s =
     (let ws = takeWhile isWhiteSpace s; r = dropWhile isWhiteSpace s
      in if startsWith (js ''{:'') r then
           (case attrs_lazy [] (drop 2 r) of
              Some (a, _) \<Rightarrow> (ws @ js ''{:'' @ a @ js ''}'', Some a)
            | None \<Rightarrow> (ws, None))
         else (ws, None))"

text \<open>The group \<open>(.*?)\)\<close> and the tail: the path, the tail's text and group 5.\<close>

fun path_lazy :: "jsstring \<Rightarrow> jsstring \<Rightarrow> (jsstring \<times> jsstring \<times> jsstring option) option" where
  "path_lazy acc [] = None"
| "path_lazy acc (c # cs) =
     (if c = 0x29 then Some (acc, attachment_tail cs)
      else if isLineTerminator c then None
      else path_lazy (acc @ [c]) cs)"

text \<open>The group \<open>(.*?)\]\(\<close> and what follows: alt text, path, the tail's text, group 5.\<close>

fun alt_lazy ::
  "jsstring \<Rightarrow> jsstring \<Rightarrow> (jsstring \<times> jsstring \<times> jsstring \<times> jsstring option) option" where
  "alt_lazy acc [] = None"
| "alt_lazy acc (c # cs) =
     (case (if startsWith (js '']('') (c # cs) then path_lazy [] (drop 2 (c # cs)) else None) of
        Some r \<Rightarrow> Some (acc, r)
      | None \<Rightarrow> if isLineTerminator c then None else alt_lazy (acc @ [c]) cs)"

text \<open>The expression from the bracket on, after the optional \<open>!\<close> matched \<open>bang\<close>.\<close>

definition attachment_from_bracket :: "jsstring \<Rightarrow> jsstring \<Rightarrow> attachment_match option" where
  "attachment_from_bracket bang s =
     (case s of
        [] \<Rightarrow> None
      | c # cs \<Rightarrow>
          if c = 0x5B then
            (case alt_lazy [] cs of
               None \<Rightarrow> None
             | Some (alt, lp, rest, grp5) \<Rightarrow>
                 Some \<lparr>fullMatch = bang @ js ''['' @ alt @ js '']('' @ lp @ js '')'' @ rest,
                       altText = alt, localPath = lp, attrs = grp5\<rparr>)
          else None)"

text \<open>A match that starts at the first character: the greedy \<open>!?\<close> first with the \<open>!\<close>.\<close>

definition attachment_at :: "jsstring \<Rightarrow> attachment_match option" where
  "attachment_at s =
     (case (if startsWith (js ''!'') s then attachment_from_bracket (js ''!'') (drop 1 s) else None) of
        Some mt \<Rightarrow> Some mt
      | None \<Rightarrow> attachment_from_bracket [] s)"

text \<open>
  \<open>s.match(ATTACHMENT_REGEX)\<close>: the expression has no \<open>^\<close>, so the match is the one at
  the leftmost position where one starts; the result carries that position (\<open>match.index\<close>).
\<close>

fun attachment_search :: "jsstring \<Rightarrow> (nat \<times> attachment_match) option" where
  "attachment_search [] = None"
| "attachment_search (c # cs) =
     (case attachment_at (c # cs) of
        Some mt \<Rightarrow> Some (0, mt)
      | None \<Rightarrow> map_option (\<lambda>(k, mt). (Suc k, mt)) (attachment_search cs))"

subsection \<open>The other recognizers\<close>

text \<open>
  Block embed: \<open>remaining.startsWith("{{embed ((")\<close> and \<open>remaining.indexOf("))}}")\<close>
  is not \<open>-1\<close>. The result is \<open>endIdx\<close>.
\<close>

definition embed_end :: "jsstring \<Rightarrow> nat option" where
  "embed_end remaining =
     (if startsWith (js ''{{embed (('') remaining then indexOf (js ''))}}'') remaining else None)"

text \<open>Block reference: \<open>remaining.startsWith("((")\<close> and \<open>remaining.indexOf("))")\<close>.\<close>

definition ref_end :: "jsstring \<Rightarrow> nat option" where
  "ref_end remaining =
     (if startsWith (js ''(('') remaining then indexOf (js ''))'') remaining else None)"

text \<open>Page link or tag link: \<open>[[...]]\<close> or \<open>#[[...]]\<close>, and \<open>remaining.indexOf("]]")\<close>.\<close>

definition link_end :: "jsstring \<Rightarrow> nat option" where
  "link_end remaining =
     (if startsWith (js ''[['') remaining \<or> startsWith (js ''#[['') remaining
      then indexOf (js '']]'') remaining else None)"

text \<open>Simple tag: \<^verbatim>\<open>/^#([^\s#\[\]]+)/\<close>. The result is group 1.\<close>

definition isTagChar :: "jschar \<Rightarrow> bool" where
  "isTagChar c \<longleftrightarrow> \<not> isWhiteSpace c \<and> c \<noteq> 0x23 \<and> c \<noteq> 0x5B \<and> c \<noteq> 0x5D"

definition tag_match :: "jsstring \<Rightarrow> jsstring option" where
  "tag_match remaining =
     (case remaining of
        [] \<Rightarrow> None
      | c # cs \<Rightarrow>
          if c = 0x23 \<and> takeWhile isTagChar cs \<noteq> [] then Some (takeWhile isTagChar cs) else None)"

text \<open>\<^verbatim>\<open>/\.(png|jpg|jpeg|gif|svg|webp)$/i.test(localPath)\<close>\<close>

definition isImage :: "jsstring \<Rightarrow> bool" where
  "isImage lp =
     list_ex (\<lambda>ext. endsWith (js ext) (map toLowerASCII lp))
       [''.png'', ''.jpg'', ''.jpeg'', ''.gif'', ''.svg'', ''.webp'']"

text \<open>
  \<^verbatim>\<open>attrs.match(/:width\s+(\d+)/)?.[1]\<close> and the same for \<open>:height\<close>: the digits
  after the leftmost place where the key, some whitespace and a digit follow each other.
\<close>

definition attr_at :: "jsstring \<Rightarrow> jsstring \<Rightarrow> jsstring option" where
  "attr_at key s =
     (if startsWith key s then
        (let r = drop (length key) s;
             ds = takeWhile isDigit (dropWhile isWhiteSpace r)
         in if takeWhile isWhiteSpace r \<noteq> [] \<and> ds \<noteq> [] then Some ds else None)
      else None)"

fun find_attr :: "jsstring \<Rightarrow> jsstring \<Rightarrow> jsstring option" where
  "find_attr key [] = None"
| "find_attr key (c # cs) =
     (case attr_at key (c # cs) of Some ds \<Rightarrow> Some ds | None \<Rightarrow> find_attr key cs)"

text \<open>
  The fragment pushed for an attachment match. \<open>if (newPath)\<close> and \<open>if (attrs)\<close> test
  truthiness: a missing entry and the empty string both fail.
\<close>

definition attachment_fragment ::
  "(jsstring \<rightharpoonup> jsstring) \<Rightarrow> attachment_match \<Rightarrow> ContentFragment" where
  "attachment_fragment assetPathMap mt =
     (case assetPathMap (localPath mt) of
        None \<Rightarrow> text_fragment (attachmentNotFound (localPath mt))
      | Some newPath \<Rightarrow>
          if newPath = [] then text_fragment (attachmentNotFound (localPath mt))
          else if isImage (localPath mt) then
            (let imageFragment =
               (text_fragment newPath)\<lparr>frag_t := js ''i'', frag_a := Some (altText mt)\<rparr>
             in case attrs mt of
                  None \<Rightarrow> imageFragment
                | Some a \<Rightarrow>
                    if a = [] then imageFragment
                    else imageFragment
                           \<lparr>frag_w := map_option parseInt (find_attr (js '':width'') a),
                            frag_h := map_option parseInt (find_attr (js '':height'') a)\<rparr>)
          else
            (text_fragment
               (if altText mt \<noteq> [] then altText mt else last (split_on 0x2F (localPath mt))))
              \<lparr>frag_f := Some (js ''l''), frag_fa := Some (newPath, js ''_blank'')\<rparr>)"

subsection \<open>The scan\<close>

text \<open>
  One pass through the body of the \<open>while\<close> loop on \<open>remaining = content.substring(i)\<close>:
  either a recognizer fires, and the body flushes the buffer, pushes the fragment and
  adds the given amount to \<open>i\<close>, or the character at \<open>i\<close> goes to the buffer.
\<close>

datatype scan_result = Emit ContentFragment nat | Plain

definition scan :: "jsstring \<Rightarrow> LogseqGraph \<Rightarrow> (jsstring \<rightharpoonup> jsstring) \<Rightarrow> scan_result" where
  "scan remaining graph assetPathMap =
     (case embed_end remaining of
        Some endIdx \<Rightarrow>
          (let uuid = substring 10 endIdx remaining
           in Emit (block_ref_fragment (block_ref_value graph uuid) uuid) (endIdx + 4))
      | None \<Rightarrow>
     (case ref_end remaining of
        Some endIdx \<Rightarrow>
          (let uuid = substring 2 endIdx remaining
           in Emit (block_ref_fragment (block_ref_value graph uuid) uuid) (endIdx + 2))
      | None \<Rightarrow>
     (case link_end remaining of
        Some endIdx \<Rightarrow>
          (let startIdx = (if startsWith (js ''#'') remaining then 3 else 2)
           in Emit (page_ref_fragment (substring startIdx endIdx remaining)) (endIdx + 2))
      | None \<Rightarrow>
     (case tag_match remaining of
        Some tagName \<Rightarrow> Emit (page_ref_fragment tagName) (1 + length tagName)
      | None \<Rightarrow>
     (case attachment_search remaining of
        Some (idx, mt) \<Rightarrow> Emit (attachment_fragment assetPathMap mt) (length (fullMatch mt))
      | None \<Rightarrow> Plain)))))"

definition flushBuffer :: "jsstring \<Rightarrow> ContentFragment list" where
  "flushBuffer buffer = (if buffer \<noteq> [] then [text_fragment buffer] else [])"

text \<open>Every amount the scan adds to the cursor is positive: the loop makes progress.\<close>

lemma attachment_from_bracket_length:
  "attachment_from_bracket bang s = Some mt \<Longrightarrow> 0 < length (fullMatch mt)"
  by (auto simp: attachment_from_bracket_def js_def split: list.splits if_splits option.splits)

lemma attachment_at_length: "attachment_at s = Some mt \<Longrightarrow> 0 < length (fullMatch mt)"
  by (auto simp: attachment_at_def split: option.splits if_splits
           dest: attachment_from_bracket_length)

lemma attachment_search_length:
  "attachment_search s = Some (k, mt) \<Longrightarrow> 0 < length (fullMatch mt)"
proof (induction s arbitrary: k)
  case Nil
  then show ?case by simp
next
  case (Cons c cs)
  then show ?case
    by (auto split: option.splits dest: attachment_at_length)
qed

lemma scan_advances: "scan remaining graph assetPathMap = Emit frag n \<Longrightarrow> 0 < n"
  by (auto simp: scan_def Let_def split: option.splits dest: attachment_search_length)

text \<open>
  The \<open>while (i < content.length)\<close> loop with its three mutable variables, and the final
  \<open>flushBuffer()\<close>.
\<close>

function parse_loop ::
  "jsstring \<Rightarrow> LogseqGraph \<Rightarrow> (jsstring \<rightharpoonup> jsstring) \<Rightarrow> nat \<Rightarrow> jsstring \<Rightarrow> ContentFragment list
     \<Rightarrow> ContentFragment list" where
  "parse_loop txt graph assetPathMap i buffer fragments =
     (if i < length txt then
        (case scan (drop i txt) graph assetPathMap of
           Emit frag n \<Rightarrow>
             parse_loop txt graph assetPathMap (i + n) [] (fragments @ flushBuffer buffer @ [frag])
         | Plain \<Rightarrow>
             parse_loop txt graph assetPathMap (i + 1) (buffer @ [txt ! i]) fragments)
      else fragments @ flushBuffer buffer)"
  by pat_completeness auto
termination
  by (relation "measure (\<lambda>(txt, graph, assetPathMap, i, buffer, fragments). length txt - i)")
     (auto dest: scan_advances)

declare parse_loop.simps [simp del]

text \<open>The parameter \<open>content\<close> of the source is \<open>txt\<close> here.\<close>

definition parseContentToFragments ::
  "jsstring \<Rightarrow> LogseqGraph \<Rightarrow> (jsstring \<rightharpoonup> jsstring) \<Rightarrow> ContentFragment list" where
  "parseContentToFragments txt graph assetPathMap = parse_loop txt graph assetPathMap 0 [] []"


section \<open>Pages as the importer reads them\<close>

text \<open>
  The importer only reads the block objects the parser built. \<open>BlockTree b kids\<close> is a
  block object together with the trees under its \<open>children\<close>. \<open>read_block\<close> reads it
  off the store, following \<open>children\<close> at most \<open>d\<close> levels down; \<open>block_trees\<close> uses the
  size of the store for \<open>d\<close>, which is enough for the pages of \<open>parseLogseqFile\<close>, where
  every child lies behind its parent.
\<close>

datatype BlockTree = BlockTree LogseqBlock "BlockTree list"

fun read_block :: "nat \<Rightarrow> LogseqBlock list \<Rightarrow> ref \<Rightarrow> BlockTree" where
  "read_block 0 st r = BlockTree (st ! r) []"
| "read_block (Suc d) st r = BlockTree (st ! r) (map (read_block d st) (children (st ! r)))"

definition block_trees :: "LogseqPage \<Rightarrow> BlockTree list" where
  "block_trees pg = map (read_block (length (store pg)) (store pg)) (page_blocks pg)"


section \<open>The host (orca, the file system handles)\<close>

text \<open>
  Every call to the host is recorded in a trace, and the host's answer may depend on the
  trace so far. An answer is a value or a thrown error with its message. \<open>orca.notify\<close>
  only adds to the trace. Console output is not modelled.
\<close>

datatype 'a reply = Throws jsstring | Returns 'a

text \<open>What a command or backend call hands back: nothing, a number (a \<open>DbId\<close>) or an object.\<close>

datatype jsval = Undefined | Num nat | Obj nat

fun truthy :: "jsval \<Rightarrow> bool" where
  "truthy Undefined = False"
| "truthy (Num n) = (n \<noteq> 0)"
| "truthy (Obj h) = True"

record Repr =
  repr_type :: jsstring
  repr_content :: "ContentFragment list"
  indent :: nat
  repr_properties :: "(jsstring \<times> jsstring \<times> nat) list option"

record upload_result =
  uploaded :: "jsstring list option"
  failed :: "nat option"

datatype call =
    GetDirectoryHandle jsstring
  | GetFile jsstring
  | UploadAssets "nat list"
  | InsertBlock jsval "ContentFragment list" jsstring
  | SetProperties jsval "(jsstring \<times> jsstring \<times> nat option) list"
  | GetBlock jsval
  | BatchInsertReprs jsval "Repr list"

datatype event = Call call | Notify jsstring jsstring

record host =
  getDirectoryHandle :: "event list \<Rightarrow> jsstring \<Rightarrow> unit reply"
  getFile :: "event list \<Rightarrow> jsstring \<Rightarrow> nat reply"
  uploadAssets :: "event list \<Rightarrow> nat list \<Rightarrow> upload_result option reply"
  insertBlock :: "event list \<Rightarrow> jsval \<Rightarrow> ContentFragment list \<Rightarrow> jsstring \<Rightarrow> jsval reply"
  setProperties ::
    "event list \<Rightarrow> jsval \<Rightarrow> (jsstring \<times> jsstring \<times> nat option) list \<Rightarrow> unit reply"
  getBlock :: "event list \<Rightarrow> jsval \<Rightarrow> jsval reply"
  batchInsertReprs :: "event list \<Rightarrow> jsval \<Rightarrow> Repr list \<Rightarrow> unit reply"

text \<open>A number in a template literal.\<close>

function show_nat :: "nat \<Rightarrow> jsstring" where
  "show_nat n = (if n < 10 then [of_nat (48 + n)] else show_nat (n div 10) @ [of_nat (48 + n mod 10)])"
  by pat_completeness auto
termination
  by (relation "measure id") auto

declare show_nat.simps [simp del]


section \<open>The asset migrator (importer.ts, preUploadAssetsAndGetPathMap)\<close>

text \<open>
  \<open>block.content.matchAll(new RegExp(ATTACHMENT_REGEX, 'g'))\<close>: the matches from left to
  right, each search starting where the last match ended.
\<close>

function matchAll_attachment :: "jsstring \<Rightarrow> attachment_match list" where
  "matchAll_attachment s =
     (case attachment_search s of
        None \<Rightarrow> []
      | Some (k, mt) \<Rightarrow> mt # matchAll_attachment (drop (k + length (fullMatch mt)) s))"
  by pat_completeness auto
termination
proof (relation "measure length")
  show "wf (measure length)" by simp
next
  fix s :: jsstring and x2 k mt
  assume "attachment_search s = Some x2" "(k, mt) = x2"
  then have a: "attachment_search s = Some (k, mt)" by simp
  from attachment_search_length[OF a] have "0 < length (fullMatch mt)" .
  moreover from a have "s \<noteq> []" by auto
  ultimately show "(drop (k + length (fullMatch mt)) s, s) \<in> measure length" by simp
qed

declare matchAll_attachment.simps [simp del]

text \<open>\<open>collectPaths\<close>: the paths under \<open>../assets/\<close> of a block, then those of its children.\<close>

fun block_paths :: "BlockTree \<Rightarrow> jsstring list" where
  "block_paths (BlockTree b kids) =
     filter (startsWith (js ''../assets/'')) (map localPath (matchAll_attachment (content b))) @
     concat (map block_paths kids)"

text \<open>\<open>allAssetPaths\<close>: a \<open>Set\<close>, enumerated in the order of first insertion.\<close>

definition allAssetPaths :: "LogseqPage list \<Rightarrow> jsstring list" where
  "allAssetPaths pagesToImport =
     rev (remdups (rev (concat (map (\<lambda>pg. concat (map block_paths (block_trees pg))) pagesToImport))))"

text \<open>
  The inner loop with its own \<open>try\<close>: a file that cannot be opened is skipped. The result
  is \<open>filesToUpload\<close>, \<open>pathsToUpload\<close> and the trace.
\<close>

fun lookup_files ::
  "host \<Rightarrow> jsstring list \<Rightarrow> event list \<Rightarrow> nat list \<times> jsstring list \<times> event list" where
  "lookup_files h [] tr = ([], [], tr)"
| "lookup_files h (originalPath # rest) tr =
     (let relativePath = drop 10 originalPath;
          tr' = tr @ [Call (GetFile relativePath)]
      in case getFile h tr relativePath of
           Throws e \<Rightarrow> lookup_files h rest tr'
         | Returns file \<Rightarrow>
             (case lookup_files h rest tr' of
                (files, paths, tr'') \<Rightarrow> (file # files, originalPath # paths, tr'')))"

definition msg_uploading :: "nat \<Rightarrow> jsstring" where
  "msg_uploading n =
     [0x51C6, 0x5907, 0x4E0A, 0x4F20, 0x20] @ show_nat n @ [0x20, 0x4E2A, 0x9644, 0x4EF6, 0x2E, 0x2E, 0x2E]"

definition msg_upload_failed :: "nat \<Rightarrow> jsstring" where
  "msg_upload_failed n =
     show_nat n @ [0x20, 0x4E2A, 0x9644, 0x4EF6, 0x4E0A, 0x4F20, 0x5931, 0x8D25, 0x3002]"

definition msg_no_assets_dir :: jsstring where
  "msg_no_assets_dir =
     [0x65E0, 0x6CD5, 0x6253, 0x5F00, 0x20, 0x27, 0x61, 0x73, 0x73, 0x65, 0x74, 0x73, 0x27, 0x20,
      0x6587, 0x4EF6, 0x5939, 0xFF0C, 0x9644, 0x4EF6, 0x8FC1, 0x79FB, 0x5931, 0x8D25, 0x3002]"

text \<open>
  \<open>assetPathMap.set(pathsToUpload[i], result.uploaded[i].path)\<close> for every \<open>i\<close> below
  \<open>result.uploaded.length\<close>. (Beyond the end of \<open>pathsToUpload\<close> the key is
  \<open>undefined\<close>, which no lookup by a string finds: those entries are left out.)
\<close>

definition set_uploaded ::
  "jsstring list \<Rightarrow> jsstring list \<Rightarrow> (jsstring \<rightharpoonup> jsstring) \<Rightarrow> (jsstring \<rightharpoonup> jsstring)" where
  "set_uploaded pathsToUpload ups m = fold (\<lambda>(p, u) m. m(p \<mapsto> u)) (zip pathsToUpload ups) m"

text \<open>
  The body of the outer \<open>try\<close>: the error thrown, if any, with the map and the trace at
  that moment.
\<close>

definition upload_body ::
  "host \<Rightarrow> jsstring list \<Rightarrow> event list \<Rightarrow> (jsstring + unit) \<times> (jsstring \<rightharpoonup> jsstring) \<times> event list" where
  "upload_body h paths tr =
     (let tr1 = tr @ [Call (GetDirectoryHandle (js ''assets''))]
      in case getDirectoryHandle h tr (js ''assets'') of
           Throws e \<Rightarrow> (Inl e, Map.empty, tr1)
         | Returns assetsFolder \<Rightarrow>
             (case lookup_files h paths tr1 of
                (filesToUpload, pathsToUpload, tr2) \<Rightarrow>
                  if filesToUpload = [] then (Inr (), Map.empty, tr2)
                  else
                    (let tr3 = tr2 @ [Notify (js ''info'') (msg_uploading (length filesToUpload))];
                         tr4 = tr3 @ [Call (UploadAssets filesToUpload)]
                     in case uploadAssets h tr3 filesToUpload of
                          Throws e \<Rightarrow> (Inl e, Map.empty, tr4)
                        | Returns None \<Rightarrow> (Inr (), Map.empty, tr4)
                        | Returns (Some result) \<Rightarrow>
                            (Inr (),
                             (case uploaded result of
                                None \<Rightarrow> Map.empty
                              | Some ups \<Rightarrow> set_uploaded pathsToUpload ups Map.empty),
                             (case failed result of
                                None \<Rightarrow> tr4
                              | Some n \<Rightarrow>
                                  if n > 0 then tr4 @ [Notify (js ''warn'') (msg_upload_failed n)]
                                  else tr4)))))"

text \<open>The function: the early return, the \<open>try\<close> and its \<open>catch\<close>, \<open>return assetPathMap\<close>.\<close>

definition preUploadAssetsAndGetPathMap ::
  "host \<Rightarrow> LogseqPage list \<Rightarrow> event list \<Rightarrow> (jsstring \<rightharpoonup> jsstring) \<times> event list" where
  "preUploadAssetsAndGetPathMap h pagesToImport tr =
     (if allAssetPaths pagesToImport = [] then (Map.empty, tr)
      else case upload_body h (allAssetPaths pagesToImport) tr of
             (Inl e, assetPathMap, tr') \<Rightarrow>
               (assetPathMap, tr' @ [Notify (js ''error'') msg_no_assets_dir])
           | (Inr u, assetPathMap, tr') \<Rightarrow> (assetPathMap, tr'))"


section \<open>The batch importer with a boundary around each page (importer.ts, lines 287--379)\<close>

text \<open>
  \<open>convertLogseqBlocksToReprs\<close>: one \<open>Repr\<close> per block, parent before children, the
  indent one more per level. An empty fragment list is replaced by one empty text fragment.
\<close>

definition repr_of_block ::
  "LogseqGraph \<Rightarrow> (jsstring \<rightharpoonup> jsstring) \<Rightarrow> nat \<Rightarrow> LogseqBlock \<Rightarrow> Repr" where
  "repr_of_block graph assetPathMap currentIndent b =
     (let contentFragments = parseContentToFragments (content b) graph assetPathMap
      in \<lparr>repr_type = js ''text'',
          repr_content = (if contentFragments \<noteq> [] then contentFragments else [text_fragment []]),
          indent = currentIndent,
          repr_properties =
            (if properties b \<noteq> [] then Some (map (\<lambda>(n, v). (n, v, 1)) (properties b)) else None)\<rparr>)"

fun convert_block :: "LogseqGraph \<Rightarrow> (jsstring \<rightharpoonup> jsstring) \<Rightarrow> nat \<Rightarrow> BlockTree \<Rightarrow> Repr list" where
  "convert_block graph assetPathMap currentIndent (BlockTree b kids) =
     repr_of_block graph assetPathMap currentIndent b #
     concat (map (convert_block graph assetPathMap (Suc currentIndent)) kids)"

definition convertLogseqBlocksToReprs ::
  "BlockTree list \<Rightarrow> LogseqGraph \<Rightarrow> (jsstring \<rightharpoonup> jsstring) \<Rightarrow> nat \<Rightarrow> Repr list" where
  "convertLogseqBlocksToReprs logseqBlocks graph assetPathMap currentIndent =
     concat (map (convert_block graph assetPathMap currentIndent) logseqBlocks)"

definition msg_assets_start :: jsstring where
  "msg_assets_start =
     [0x5F00, 0x59CB, 0x5206, 0x6790, 0x548C, 0x4E0A, 0x4F20, 0x9644, 0x4EF6, 0x2E, 0x2E, 0x2E]"

definition msg_assets_done :: jsstring where
  "msg_assets_done = [0x9644, 0x4EF6, 0x5904, 0x7406, 0x5B8C, 0x6210, 0x3002]"

text \<open>The messages of the two errors thrown when the heading block of \<^verbatim>\<open>page.name\<close> is missing, by code units.\<close>

definition msg_create_failed :: "jsstring \<Rightarrow> jsstring" where
  "msg_create_failed nm =
     [0x521B, 0x5EFA, 0x9875, 0x9762, 0x5931, 0x8D25, 0x3A, 0x20, 0x22] @ nm @ [0x22]"

definition msg_get_failed :: "jsstring \<Rightarrow> jsstring" where
  "msg_get_failed nm =
     [0x83B7, 0x53D6, 0x9875, 0x9762, 0x5757, 0x5931, 0x8D25, 0x3A, 0x20, 0x22] @ nm @ [0x22]"

text \<open>The notification of the \<open>catch\<close>: the page's name, then the error's message.\<close>

definition msg_page_failed :: "jsstring \<Rightarrow> jsstring \<Rightarrow> jsstring" where
  "msg_page_failed nm message =
     [0x5BFC, 0x5165, 0x9875, 0x9762, 0x20, 0x22] @ nm @
     [0x22, 0x20, 0x5931, 0x8D25, 0x3A, 0x20] @ message"

text \<open>The body of the \<open>try\<close> for one page: the error thrown, if any, and the trace.\<close>

definition import_page ::
  "host \<Rightarrow> LogseqGraph \<Rightarrow> (jsstring \<rightharpoonup> jsstring) \<Rightarrow> LogseqPage \<Rightarrow> event list
     \<Rightarrow> (jsstring + unit) \<times> event list" where
  "import_page h graph assetPathMap pg tr =
     (let pageProperties = map (\<lambda>(k, v). (k, v, Some 1)) (page_properties pg);
          title = [text_fragment (name pg)];
          tr1 = tr @ [Call (InsertBlock Undefined title (js ''heading''))]
      in case insertBlock h tr Undefined title (js ''heading'') of
           Throws e \<Rightarrow> (Inl e, tr1)
         | Returns pageBlockId \<Rightarrow>
             if \<not> truthy pageBlockId then (Inl (msg_create_failed (name pg)), tr1)
             else
               (case (if pageProperties \<noteq> []
                      then (setProperties h tr1 pageBlockId pageProperties,
                            tr1 @ [Call (SetProperties pageBlockId pageProperties)])
                      else (Returns (), tr1)) of
                  (Throws e, tr2) \<Rightarrow> (Inl e, tr2)
                | (Returns u, tr2) \<Rightarrow>
                    (let tr3 = tr2 @ [Call (GetBlock pageBlockId)]
                     in case getBlock h tr2 pageBlockId of
                          Throws e \<Rightarrow> (Inl e, tr3)
                        | Returns pageBlock \<Rightarrow>
                            if \<not> truthy pageBlock then (Inl (msg_get_failed (name pg)), tr3)
                            else if page_blocks pg \<noteq> [] then
                              (let blockReprs =
                                     convertLogseqBlocksToReprs (block_trees pg) graph assetPathMap 0
                               in if blockReprs \<noteq> [] then
                                    (case batchInsertReprs h tr3 pageBlock blockReprs of
                                       Throws e \<Rightarrow>
                                         (Inl e, tr3 @ [Call (BatchInsertReprs pageBlock blockReprs)])
                                     | Returns u' \<Rightarrow>
                                         (Inr (), tr3 @ [Call (BatchInsertReprs pageBlock blockReprs)]))
                                  else (Inr (), tr3))
                            else (Inr (), tr3))))"

text \<open>\<open>for (const page of pagesToImport) { try { ... } catch (e) { orca.notify(...) } }\<close>\<close>

fun import_pages ::
  "host \<Rightarrow> LogseqGraph \<Rightarrow> (jsstring \<rightharpoonup> jsstring) \<Rightarrow> LogseqPage list \<Rightarrow> event list \<Rightarrow> event list" where
  "import_pages h graph assetPathMap [] tr = tr"
| "import_pages h graph assetPathMap (pg # rest) tr =
     (case import_page h graph assetPathMap pg tr of
        (Inl e, tr') \<Rightarrow>
          import_pages h graph assetPathMap rest
            (tr' @ [Notify (js ''error'') (msg_page_failed (name pg) e)])
      | (Inr u, tr') \<Rightarrow> import_pages h graph assetPathMap rest tr')"

text \<open>
  \<open>importPageBatch\<close> of lines 326--379. \<open>orca.commands.invokeGroup\<close> runs its callback;
  the short delay before each page has no effect on the trace.
\<close>

definition importPageBatch ::
  "host \<Rightarrow> LogseqPage list \<Rightarrow> LogseqGraph \<Rightarrow> event list \<Rightarrow> (jsstring + unit) \<times> event list" where
  "importPageBatch h pagesToImport graph tr =
     (case preUploadAssetsAndGetPathMap h pagesToImport (tr @ [Notify (js ''info'') msg_assets_start]) of
        (assetPathMap, tr1) \<Rightarrow>
          (Inr (),
           import_pages h graph assetPathMap pagesToImport
             (tr1 @ [Notify (js ''success'') msg_assets_done])))"


section \<open>The two-pass batch importer (importer.ts, lines 1--103)\<close>

text \<open>
  \<open>createBlocksRecursively\<close>: the error thrown, if any, the map from uuids to the ids
  the host gave, and the trace. There is no \<open>try\<close> anywhere in it.
\<close>

fun createBlocksRecursively ::
  "host \<Rightarrow> BlockTree list \<Rightarrow> jsval \<Rightarrow> (jsstring \<rightharpoonup> jsval) \<times> event list
     \<Rightarrow> (jsstring + unit) \<times> (jsstring \<rightharpoonup> jsval) \<times> event list" where
  "createBlocksRecursively h [] parentDbId (uuidToDbIdMap, tr) = (Inr (), uuidToDbIdMap, tr)"
| "createBlocksRecursively h (BlockTree b kids # rest) parentDbId (uuidToDbIdMap, tr) =
     (let body = [text_fragment (content b)];
          tr1 = tr @ [Call (InsertBlock parentDbId body (js ''text''))]
      in case insertBlock h tr parentDbId body (js ''text'') of
           Throws e \<Rightarrow> (Inl e, uuidToDbIdMap, tr1)
         | Returns blockId \<Rightarrow>
             (let m1 = (case block_id b of
                          None \<Rightarrow> uuidToDbIdMap
                        | Some uuid \<Rightarrow>
                            if uuid \<noteq> [] then uuidToDbIdMap(uuid \<mapsto> blockId) else uuidToDbIdMap);
                  propertiesToSet = map (\<lambda>(n, v). (n, v, None)) (properties b)
              in case (if propertiesToSet \<noteq> []
                       then (setProperties h tr1 blockId propertiesToSet,
                             tr1 @ [Call (SetProperties blockId propertiesToSet)])
                       else (Returns (), tr1)) of
                   (Throws e, tr2) \<Rightarrow> (Inl e, m1, tr2)
                 | (Returns u, tr2) \<Rightarrow>
                     (case (if kids \<noteq> [] then createBlocksRecursively h kids blockId (m1, tr2)
                            else (Inr (), m1, tr2)) of
                        (Inl e, m2, tr3) \<Rightarrow> (Inl e, m2, tr3)
                      | (Inr u', m2, tr3) \<Rightarrow> createBlocksRecursively h rest parentDbId (m2, tr3))))"

text \<open>
  The callback of the first \<open>invokeGroup\<close> of \<open>importPageBatch\<close> of lines 21--75 (pass 1):
  the loop over the pages of the batch. No \<open>try\<close> stands in the loop, around it or around
  the \<open>invokeGroup\<close>, so the first error ends the loop; the result is that error, if any,
  the map from uuids to ids, and the trace. Pass 2 creates no page and notifies nothing.
\<close>

fun import_pass1 ::
  "host \<Rightarrow> LogseqPage list \<Rightarrow> (jsstring \<rightharpoonup> jsval) \<times> event list
     \<Rightarrow> (jsstring + unit) \<times> (jsstring \<rightharpoonup> jsval) \<times> event list" where
  "import_pass1 h [] (uuidToDbIdMap, tr) = (Inr (), uuidToDbIdMap, tr)"
| "import_pass1 h (pg # rest) (uuidToDbIdMap, tr) =
     (let title = [text_fragment (name pg)];
          tr1 = tr @ [Call (InsertBlock Undefined title (js ''heading''))]
      in case insertBlock h tr Undefined title (js ''heading'') of
           Throws e \<Rightarrow> (Inl e, uuidToDbIdMap, tr1)
         | Returns pageBlockId \<Rightarrow>
             (case createBlocksRecursively h (block_trees pg) pageBlockId (uuidToDbIdMap, tr1) of
                (Inl e, m, tr2) \<Rightarrow> (Inl e, m, tr2)
              | (Inr u, m, tr2) \<Rightarrow> import_pass1 h rest (m, tr2)))"


section \<open>The driving loop (startImportProcess)\<close>







text \<open>\<open>Array.from(graph.pages.values())\<close>: the pages in the order of insertion.\<close>

definition allPages_of :: "LogseqGraph \<Rightarrow> LogseqPage list" where
  "allPages_of graph = map snd (pages graph)"


section \<open>The hierarchy built by parseLogseqFile\<close>

text \<open>
  Blocks are numbered by document position (the address in the store). \<open>nearest_below ls
  lv k\<close> is the nearest position before \<open>k\<close> whose level is strictly less than \<open>lv\<close>;
  \<open>parent_pos ls i\<close> is the nearest block before block \<open>i\<close> whose level is strictly less
  than that of \<open>i\<close>.
\<close>

fun nearest_below :: "rat list \<Rightarrow> rat \<Rightarrow> nat \<Rightarrow> nat option" where
  "nearest_below ls lv 0 = None"
| "nearest_below ls lv (Suc k) = (if ls ! k < lv then Some k else nearest_below ls lv k)"

definition parent_pos :: "rat list \<Rightarrow> nat \<Rightarrow> nat option" where
  "parent_pos ls i = nearest_below ls (ls ! i) i"

text \<open>
  The stack invariant: each block on the stack is followed by its \<open>parent_pos\<close>, and the
  bottom one has none.
\<close>

fun linked :: "rat list \<Rightarrow> nat list \<Rightarrow> bool" where
  "linked ls [] = True"
| "linked ls [x] = (parent_pos ls x = None)"
| "linked ls (x # y # zs) = (parent_pos ls x = Some y \<and> linked ls (y # zs))"

definition levels :: "parser_state \<Rightarrow> rat list" where
  "levels s = map level (store (page s))"

definition hierarchy_inv :: "parser_state \<Rightarrow> bool" where
  "hierarchy_inv s \<longleftrightarrow>
     (let st = store (page s); n = length st; ls = levels s in
        (\<forall>p<n. children (st ! p) = filter (\<lambda>i. parent_pos ls i = Some p) [0..<n]) \<and>
        page_blocks (page s) = filter (\<lambda>i. parent_pos ls i = None) [0..<n] \<and>
        linked ls (blockStack s) \<and> (\<forall>x\<in>set (blockStack s). x < n) \<and>
        (case blockStack s of [] \<Rightarrow> n = 0 | x # _ \<Rightarrow> Suc x = n))"

lemma nearest_below_append:
  "k \<le> length ls \<Longrightarrow> nearest_below (ls @ ms) lv k = nearest_below ls lv k"
  by (induction k) (auto simp: nth_append)

lemma nearest_below_less: "nearest_below ls lv k = Some j \<Longrightarrow> j < k \<and> ls ! j < lv"
  by (induction k) (auto split: if_splits simp: less_Suc_eq)

lemma nearest_below_mono:
  "lv \<le> lv' \<Longrightarrow>
   nearest_below ls lv k =
     (case nearest_below ls lv' k of None \<Rightarrow> None | Some p \<Rightarrow> nearest_below ls lv (Suc p))"
  by (induction k) auto

lemma parent_pos_append: "i < length ls \<Longrightarrow> parent_pos (ls @ ms) i = parent_pos ls i"
  by (simp add: parent_pos_def nearest_below_append nth_append)

lemma linked_append: "\<forall>x\<in>set sk. x < length ls \<Longrightarrow> linked (ls @ ms) sk = linked ls sk"
  by (induction ls sk rule: linked.induct) (auto simp: parent_pos_append)

lemma pop_stack_linked:
  assumes "linked ls sk" "\<forall>x\<in>set sk. x < length st" "ls = map level st"
  shows "linked ls (pop_stack st lv sk) \<and> set (pop_stack st lv sk) \<subseteq> set sk \<and>
         (case pop_stack st lv sk of [] \<Rightarrow> None | p # _ \<Rightarrow> Some p) =
         (case sk of [] \<Rightarrow> None | x # _ \<Rightarrow> nearest_below ls lv (Suc x))"
  using assms
proof (induction sk)
  case Nil
  then show ?case by simp
next
  case (Cons x rest)
  show ?case
  proof (cases "lv \<le> level (st ! x)")
    case False
    with Cons show ?thesis by auto
  next
    case True
    from Cons.prems have x: "x < length st" and lx: "ls ! x = level (st ! x)" by auto
    have lr: "linked ls rest" using Cons.prems(1) by (cases rest) auto
    from Cons.IH[OF lr] Cons.prems
    have IH: "linked ls (pop_stack st lv rest)" "set (pop_stack st lv rest) \<subseteq> set rest"
      "(case pop_stack st lv rest of [] \<Rightarrow> None | p # _ \<Rightarrow> Some p) =
         (case rest of [] \<Rightarrow> None | y # _ \<Rightarrow> nearest_below ls lv (Suc y))" by auto
    have "nearest_below ls lv (Suc x) = nearest_below ls lv x" using True lx by simp
    also have "\<dots> = (case parent_pos ls x of None \<Rightarrow> None | Some p \<Rightarrow> nearest_below ls lv (Suc p))"
      unfolding parent_pos_def using nearest_below_mono[of lv "ls ! x" ls x] True lx by simp
    also have "\<dots> = (case rest of [] \<Rightarrow> None | y # _ \<Rightarrow> nearest_below ls lv (Suc y))"
      using Cons.prems(1) by (cases rest) auto
    finally show ?thesis using True IH by auto
  qed
qed

definition popped :: "parser_state \<Rightarrow> jsstring \<Rightarrow> ref list" where
  "popped s line = pop_stack (store (page s)) (line_level line) (blockStack s)"

definition new_parent :: "parser_state \<Rightarrow> jsstring \<Rightarrow> ref option" where
  "new_parent s line = (case popped s line of [] \<Rightarrow> None | p # _ \<Rightarrow> Some p)"

lemma add_block_length: "length (store (page (add_block s line))) = Suc (length (store (page s)))"
  by (simp add: add_block_def Let_def split: list.splits)

lemma map_update_same: "(map f xs)[k := f (xs ! k)] = map f xs"
proof (rule nth_equalityI)
  show "length ((map f xs)[k := f (xs ! k)]) = length (map f xs)" by simp
next
  fix i assume "i < length ((map f xs)[k := f (xs ! k)])"
  then show "(map f xs)[k := f (xs ! k)] ! i = map f xs ! i"
    by (cases "i = k") simp_all
qed

lemma add_block_levels: "levels (add_block s line) = levels s @ [line_level line]"
  by (auto simp: add_block_def levels_def Let_def map_update map_update_same split: list.splits)

lemma add_block_stack:
  "blockStack (add_block s line) = length (store (page s)) # popped s line"
  by (simp add: add_block_def popped_def Let_def)

lemma add_block_page_blocks:
  "page_blocks (page (add_block s line)) =
     page_blocks (page s) @ (if new_parent s line = None then [length (store (page s))] else [])"
  by (simp add: add_block_def popped_def new_parent_def Let_def split: list.splits)

lemma add_block_children_old:
  "p < length (store (page s)) \<Longrightarrow>
   children (store (page (add_block s line)) ! p) =
     children (store (page s) ! p) @
       (if new_parent s line = Some p then [length (store (page s))] else [])"
  by (auto simp: add_block_def popped_def new_parent_def Let_def nth_append nth_list_update
           split: list.splits)

lemma add_block_children_new:
  "children (store (page (add_block s line)) ! length (store (page s))) = []"
  by (auto simp: add_block_def Let_def nth_append split: list.splits)

lemma new_parent_nearest:
  assumes "hierarchy_inv s"
  shows "linked (levels s) (popped s line)"
    and "\<forall>x\<in>set (popped s line). x < length (store (page s))"
    and "new_parent s line = nearest_below (levels s) (line_level line) (length (store (page s)))"
proof -
  from assms have a: "linked (levels s) (blockStack s)"
    and b: "\<forall>x\<in>set (blockStack s). x < length (store (page s))"
    and c: "(case blockStack s of [] \<Rightarrow> length (store (page s)) = 0
             | x # _ \<Rightarrow> Suc x = length (store (page s)))"
    by (simp_all add: hierarchy_inv_def Let_def)
  note P = pop_stack_linked[OF a b, of "line_level line"]
  from P show "linked (levels s) (popped s line)" by (simp add: popped_def levels_def)
  from P b show "\<forall>x\<in>set (popped s line). x < length (store (page s))"
    by (auto simp: popped_def levels_def)
  have "(case blockStack s of [] \<Rightarrow> None | x # _ \<Rightarrow> nearest_below (levels s) (line_level line) (Suc x)) =
        nearest_below (levels s) (line_level line) (length (store (page s)))"
    using c by (cases "blockStack s") (simp_all del: nearest_below.simps(2))
  with P show "new_parent s line = nearest_below (levels s) (line_level line) (length (store (page s)))"
    by (simp add: new_parent_def popped_def levels_def)
qed

lemma add_block_inv:
  assumes "hierarchy_inv s"
  shows "hierarchy_inv (add_block s line)"
proof -
  define st where "st = store (page s)"
  define n where "n = length st"
  define ls where "ls = levels s"
  define lv where "lv = line_level line"
  have len: "length ls = n" by (simp add: ls_def levels_def n_def st_def)
  note np = new_parent_nearest[OF assms, of line]
  have "(ls @ [lv]) ! n = lv" using len by (simp add: nth_append)
  then have ppn: "parent_pos (ls @ [lv]) n = new_parent s line"
    using np(3) len by (simp add: parent_pos_def nearest_below_append ls_def lv_def n_def st_def)
  have ppo: "\<And>i. i < n \<Longrightarrow> parent_pos (ls @ [lv]) i = parent_pos ls i"
    using len by (simp add: parent_pos_append)
  have nolater: "\<And>i p. i \<le> n \<Longrightarrow> parent_pos (ls @ [lv]) i = Some p \<Longrightarrow> p < n"
    unfolding parent_pos_def by (drule nearest_below_less) simp
  have filt: "\<And>P. filter (\<lambda>i. P (parent_pos (ls @ [lv]) i)) [0..<Suc n] =
               filter (\<lambda>i. P (parent_pos ls i)) [0..<n] @ (if P (new_parent s line) then [n] else [])"
    using ppn ppo by (auto intro: filter_cong)
  from assms have old_children:
      "\<forall>p<n. children (st ! p) = filter (\<lambda>i. parent_pos ls i = Some p) [0..<n]"
    and old_top: "page_blocks (page s) = filter (\<lambda>i. parent_pos ls i = None) [0..<n]"
    by (simp_all add: hierarchy_inv_def Let_def st_def n_def ls_def)
  have c1: "\<forall>p<Suc n. children (store (page (add_block s line)) ! p) =
               filter (\<lambda>i. parent_pos (ls @ [lv]) i = Some p) [0..<Suc n]"
  proof (intro allI impI)
    fix p assume "p < Suc n"
    show "children (store (page (add_block s line)) ! p) =
               filter (\<lambda>i. parent_pos (ls @ [lv]) i = Some p) [0..<Suc n]"
    proof (cases "p < n")
      case True
      then show ?thesis
        using old_children add_block_children_old[of p s line] filt[of "\<lambda>r. r = Some p"]
        by (simp add: st_def n_def)
    next
      case False
      with \<open>p < Suc n\<close> have "p = n" by simp
      moreover have "\<forall>i\<in>set [0..<Suc n]. parent_pos (ls @ [lv]) i \<noteq> Some n"
      proof (intro ballI notI)
        fix i assume "i \<in> set [0..<Suc n]" "parent_pos (ls @ [lv]) i = Some n"
        then have "i \<le> n" "parent_pos (ls @ [lv]) i = Some n" by auto
        then have "n < n" by (rule nolater)
        then show False by simp
      qed
      then have "filter (\<lambda>i. parent_pos (ls @ [lv]) i = Some n) [0..<Suc n] = []"
        by (simp only: filter_empty_conv)
      ultimately show ?thesis using add_block_children_new[of s line] by (simp add: st_def n_def)
    qed
  qed
  have c2: "page_blocks (page (add_block s line)) =
              filter (\<lambda>i. parent_pos (ls @ [lv]) i = None) [0..<Suc n]"
    using old_top add_block_page_blocks[of s line] filt[of "\<lambda>r. r = None"]
    by (simp add: st_def n_def)
  have c3: "linked (ls @ [lv]) (n # popped s line)"
  proof -
    have "linked (ls @ [lv]) (popped s line)"
      using np(1,2) len linked_append[of "popped s line" ls "[lv]"]
      by (simp add: ls_def n_def st_def)
    then show ?thesis using ppn by (cases "popped s line") (auto simp: new_parent_def)
  qed
  have c4: "\<forall>x\<in>set (n # popped s line). x < Suc n"
    using np(2) by (auto simp: n_def st_def)
  show ?thesis
    unfolding hierarchy_inv_def Let_def add_block_length add_block_levels add_block_stack
    using c1 c2 c3 c4 by (simp add: st_def n_def ls_def lv_def)
qed

lemma continuation_line_frame:
  "levels (continuation_line s cur t) = levels s"
  "length (store (page (continuation_line s cur t))) = length (store (page s))"
  "page_blocks (page (continuation_line s cur t)) = page_blocks (page s)"
  "blockStack (continuation_line s cur t) = blockStack s"
  by (simp_all add: continuation_line_def Let_def levels_def map_update map_update_same
               split: option.splits)

lemma continuation_line_children:
  "p < length (store (page s)) \<Longrightarrow>
   children (store (page (continuation_line s cur t)) ! p) = children (store (page s) ! p)"
  by (cases "p = cur") (simp_all add: continuation_line_def Let_def split: option.splits)

lemma continuation_line_inv: "hierarchy_inv s \<Longrightarrow> hierarchy_inv (continuation_line s cur t)"
  unfolding hierarchy_inv_def Let_def continuation_line_frame
  by (simp add: continuation_line_children)

lemma page_property_inv:
  "hierarchy_inv s \<Longrightarrow> hierarchy_inv (s\<lparr>page := (page s)\<lparr>page_properties := ps\<rparr>\<rparr>)"
  by (simp add: hierarchy_inv_def levels_def Let_def)

lemma process_line_inv: "hierarchy_inv s \<Longrightarrow> hierarchy_inv (process_line s line)"
  unfolding process_line_def Let_def
  by (simp add: add_block_inv continuation_line_inv page_property_inv split: option.splits)

lemma page_property_levels:
  "levels (s\<lparr>page := (page s)\<lparr>page_properties := ps\<rparr>\<rparr>) = levels s"
  by (simp add: levels_def)

lemma not_block_line_blank: "trim line = [] \<Longrightarrow> \<not> isBlockLine line"
  by (simp add: isBlockLine_def startsWith_def js_def)

lemma process_line_levels:
  "levels (process_line s line) =
     levels s @ (if isBlockLine line then [line_level line] else [])"
  unfolding process_line_def Let_def
  by (simp add: add_block_levels continuation_line_frame page_property_levels
                not_block_line_blank
           split: option.splits)

lemma foldl_process_line_inv:
  "hierarchy_inv s \<Longrightarrow> hierarchy_inv (foldl process_line s ls)"
  by (induction ls arbitrary: s) (simp_all add: process_line_inv)

lemma foldl_process_line_levels:
  "levels (foldl process_line s ls) = levels s @ map line_level (filter isBlockLine ls)"
  by (induction ls arbitrary: s) (simp_all add: process_line_levels)

lemma initial_state_inv: "hierarchy_inv (initial_state file)"
  by (simp add: hierarchy_inv_def initial_state_def levels_def)

lemma parent_pos_less: "parent_pos ls i = Some p \<Longrightarrow> p < i \<and> ls ! p < ls ! i"
  unfolding parent_pos_def by (rule nearest_below_less)

lemma nearest_below_skip:
  "j \<le> i \<Longrightarrow> \<forall>k. j \<le> k \<and> k < i \<longrightarrow> lv \<le> ls ! k \<Longrightarrow>
   nearest_below ls lv i = nearest_below ls lv j"
  by (induction i) (auto simp: le_Suc_eq not_less)

text \<open>
  Claim C1. For every input file, parseLogseqFile builds the hierarchy by the nearest
  preceding block of strictly smaller level. With the blocks numbered in document order
  and \<open>ls\<close> their levels (the levels of the block lines of the file, in order): the
  top-level blocks are exactly those with no preceding block of smaller level; the
  children of block \<open>p\<close> are exactly the blocks whose nearest preceding block of strictly
  smaller level is \<open>p\<close>, in document order; a child is later and strictly deeper than its
  parent; and a block \<open>i\<close> whose level equals that of a still open block \<open>j\<close> (no block
  between them is shallower than \<open>j\<close>) gets the parent of \<open>j\<close> and is not a child of
  \<open>j\<close>: the pop condition is \<open>\<ge>\<close>.
\<close>

theorem parseLogseqFile_hierarchy:
  "let pg = parseLogseqFile file; st = store pg; n = length st; ls = map level st in
     ls = map line_level (filter isBlockLine (split_on 0xA (file_content file))) \<and>
     page_blocks pg = filter (\<lambda>i. parent_pos ls i = None) [0..<n] \<and>
     (p < n \<longrightarrow> children (st ! p) = filter (\<lambda>i. parent_pos ls i = Some p) [0..<n]) \<and>
     (p < n \<and> c \<in> set (children (st ! p)) \<longrightarrow> p < c \<and> level (st ! p) < level (st ! c)) \<and>
     (i < n \<and> j < i \<and> ls ! j = ls ! i \<and> (\<forall>k. j < k \<and> k < i \<longrightarrow> ls ! j \<le> ls ! k) \<longrightarrow>
        parent_pos ls i = parent_pos ls j \<and> i \<notin> set (children (st ! j)))"
proof -
  define s where "s = parse_lines file (split_on 0xA (file_content file))"
  define st where "st = store (page s)"
  define n where "n = length st"
  define ls where "ls = map level st"
  have inv: "hierarchy_inv s"
    unfolding s_def parse_lines_def by (rule foldl_process_line_inv[OF initial_state_inv])
  have lv: "ls = map line_level (filter isBlockLine (split_on 0xA (file_content file)))"
    using foldl_process_line_levels[of "initial_state file" "split_on 0xA (file_content file)"]
    by (simp add: ls_def st_def s_def parse_lines_def levels_def initial_state_def)
  from inv have ch: "\<forall>p<n. children (st ! p) = filter (\<lambda>i. parent_pos ls i = Some p) [0..<n]"
    and tp: "page_blocks (page s) = filter (\<lambda>i. parent_pos ls i = None) [0..<n]"
    by (simp_all add: hierarchy_inv_def Let_def st_def n_def ls_def levels_def)
  from ch have ch': "p < n \<longrightarrow> children (st ! p) = filter (\<lambda>i. parent_pos ls i = Some p) [0..<n]"
    by blast
  have strict: "p < n \<and> c \<in> set (children (st ! p)) \<longrightarrow> p < c \<and> level (st ! p) < level (st ! c)"
  proof
    assume "p < n \<and> c \<in> set (children (st ! p))"
    then have p: "p < n" and "c \<in> set (children (st ! p))" by auto
    with ch have c: "c < n" "parent_pos ls c = Some p" by auto
    from parent_pos_less[OF c(2)] p c(1) show "p < c \<and> level (st ! p) < level (st ! c)"
      by (simp add: ls_def n_def)
  qed
  have sib: "i < n \<and> j < i \<and> ls ! j = ls ! i \<and> (\<forall>k. j < k \<and> k < i \<longrightarrow> ls ! j \<le> ls ! k) \<longrightarrow>
        parent_pos ls i = parent_pos ls j \<and> i \<notin> set (children (st ! j))"
  proof
    assume h0: "i < n \<and> j < i \<and> ls ! j = ls ! i \<and> (\<forall>k. j < k \<and> k < i \<longrightarrow> ls ! j \<le> ls ! k)"
    then have i: "i < n" and j: "j < i"
      and h: "ls ! j = ls ! i \<and> (\<forall>k. j < k \<and> k < i \<longrightarrow> ls ! j \<le> ls ! k)" by auto
    have "\<forall>k. j \<le> k \<and> k < i \<longrightarrow> ls ! i \<le> ls ! k"
    proof (intro allI impI)
      fix k assume k: "j \<le> k \<and> k < i"
      show "ls ! i \<le> ls ! k"
      proof (cases "k = j")
        case True
        with h show ?thesis by simp
      next
        case False
        with k have "j < k \<and> k < i" by simp
        with h show ?thesis by metis
      qed
    qed
    then have "nearest_below ls (ls ! i) i = nearest_below ls (ls ! i) j"
      using j by (intro nearest_below_skip) auto
    then have a: "parent_pos ls i = parent_pos ls j" using h by (simp add: parent_pos_def)
    have "parent_pos ls i \<noteq> Some j"
      using parent_pos_less[of ls i j] h by auto
    then have "i \<notin> set (children (st ! j))" using ch i j by auto
    with a show "parent_pos ls i = parent_pos ls j \<and> i \<notin> set (children (st ! j))" ..
  qed
  show ?thesis
    unfolding Let_def parseLogseqFile_def
    using lv tp ch' strict sib unfolding ls_def n_def st_def s_def
    by (intro conjI) assumption+
qed

text \<open>
  The file \<open>- a / - b / - c / - d\<close> with \<open>b\<close> and \<open>c\<close> indented by two spaces: \<open>b\<close> and
  \<open>c\<close> are the children of \<open>a\<close>, and \<open>c\<close>, at the level of the open block \<open>b\<close>, is its
  sibling.
\<close>

definition hfile :: LogseqFile where
  "hfile = \<lparr>path = js ''pages/Foo.md'', file_content = js ''- a\<newline>  - b\<newline>  - c\<newline>- d''\<rparr>"

theorem parseLogseqFile_hierarchy_witness:
  "let st = store (parseLogseqFile hfile); ls = map level st in
     ls = [0, 1, 1, 0] \<and> page_blocks (parseLogseqFile hfile) = [0, 3] \<and>
     (0::nat) < length st \<and> children (st ! 0) = [1, 2] \<and>
     1 \<in> set (children (st ! 0)) \<and> level (st ! 0) < level (st ! 1) \<and>
     (2::nat) < length st \<and> (1::nat) < 2 \<and> ls ! 1 = ls ! 2 \<and>
     parent_pos ls 2 = parent_pos ls 1 \<and> 2 \<notin> set (children (st ! 1))"
proof -
  define st where "st = store (parseLogseqFile hfile)"
  have len: "length st = 4" and ls: "map level st = [0, 1, 1, 0]"
    and h1: "1 \<in> set (children (st ! 0))"
    unfolding st_def hfile_def by code_simp+
  have f0: "filter (\<lambda>i. parent_pos [0, 1, 1, 0] i = Some 0) [0..<4] = [1, 2]"
    and f1: "filter (\<lambda>i. parent_pos [0, 1, 1, 0] i = None) [0..<4] = [0, 3]"
    by code_simp+
  note T = parseLogseqFile_hierarchy[of hfile 0 1 2 1, unfolded Let_def, folded st_def]
  have top: "page_blocks (parseLogseqFile hfile) = [0, 3]"
    using T[THEN conjunct2, THEN conjunct1] unfolding len ls f1 .
  have c0: "children (st ! 0) = [1, 2]"
    using T[THEN conjunct2, THEN conjunct2, THEN conjunct1] unfolding len ls f0 by simp
  have s01: "level (st ! 0) < level (st ! 1)"
    using T[THEN conjunct2, THEN conjunct2, THEN conjunct2, THEN conjunct1] h1 len by simp
  have sib: "parent_pos (map level st) 2 = parent_pos (map level st) 1 \<and> 2 \<notin> set (children (st ! 1))"
    using T[THEN conjunct2, THEN conjunct2, THEN conjunct2, THEN conjunct2] len
    unfolding ls by simp
  show ?thesis
    unfolding Let_def st_def[symmetric] using len ls top c0 h1 s01 sib by simp
qed


section \<open>The id of a block\<close>

text \<open>
  \<open>last_id ls\<close>: the value of the last line of \<open>ls\<close> that matches \<open>ID_REGEX\<close> once
  trimmed, if there is one. \<open>id_step\<close>: what one continuation line does to the \<open>id\<close> of
  the current block.
\<close>

definition last_id :: "jsstring list \<Rightarrow> jsstring option" where
  "last_id ls =
     (case List.map_filter (\<lambda>l. id_match (trim l)) (rev ls) of [] \<Rightarrow> None | v # _ \<Rightarrow> Some v)"

definition id_step :: "jsstring option \<Rightarrow> jsstring \<Rightarrow> jsstring option" where
  "id_step acc l = (case id_match (trim l) of Some v \<Rightarrow> Some v | None \<Rightarrow> acc)"

lemma foldl_id_step:
  "foldl id_step acc ls =
     (case List.map_filter (\<lambda>l. id_match (trim l)) (rev ls) of [] \<Rightarrow> acc | v # _ \<Rightarrow> Some v)"
  by (induction ls rule: rev_induct) (auto simp: id_step_def map_filter_simps split: option.splits)

lemma block_line_not_blank: "isBlockLine l \<Longrightarrow> trim l \<noteq> []"
  by (auto simp: isBlockLine_def startsWith_def js_def)

lemma process_block_line: "isBlockLine l \<Longrightarrow> process_line s l = add_block s l"
  by (simp add: process_line_def Let_def block_line_not_blank)

lemma add_block_current: "currentBlock (add_block s l) = Some (length (store (page s)))"
  by (simp add: add_block_def Let_def)

lemma add_block_not_first: "\<not> isFirstBlock (add_block s l)"
  by (simp add: add_block_def Let_def)

lemma children_update_block_id:
  "k < length xs \<Longrightarrow> block_id (xs[p := (xs ! p)\<lparr>children := c\<rparr>] ! k) = block_id (xs ! k)"
  by (cases "p = k") simp_all

lemma add_block_block_id_old:
  "k < length (store (page s)) \<Longrightarrow>
   block_id (store (page (add_block s l)) ! k) = block_id (store (page s) ! k)"
  by (auto simp: add_block_def Let_def nth_append children_update_block_id split: list.splits)

lemma add_block_block_id_new:
  "block_id (store (page (add_block s l)) ! length (store (page s))) = None"
  by (auto simp: add_block_def Let_def nth_append split: list.splits)

lemma continuation_line_other:
  "k \<noteq> cur \<Longrightarrow>
   block_id (store (page (continuation_line s cur t)) ! k) = block_id (store (page s) ! k)"
  by (simp add: continuation_line_def Let_def split: option.splits)

lemma continuation_line_current:
  "cur < length (store (page s)) \<Longrightarrow>
   block_id (store (page (continuation_line s cur t)) ! cur) =
     (case id_match t of Some v \<Rightarrow> Some v | None \<Rightarrow> block_id (store (page s) ! cur))"
  by (simp add: continuation_line_def Let_def split: option.splits)

lemma continuation_line_state:
  "currentBlock (continuation_line s cur t) = currentBlock s"
  "isFirstBlock (continuation_line s cur t) = isFirstBlock s"
  by (simp_all add: continuation_line_def Let_def split: option.splits)

text \<open>The continuation lines of the block at address \<open>k\<close>.\<close>

definition at_block :: "nat \<Rightarrow> parser_state \<Rightarrow> bool" where
  "at_block k s \<longleftrightarrow>
     length (store (page s)) = Suc k \<and> currentBlock s = Some k \<and> \<not> isFirstBlock s"

lemma continuation_step:
  assumes "at_block k s" "\<not> isBlockLine l"
  shows "at_block k (process_line s l) \<and>
         block_id (store (page (process_line s l)) ! k) = id_step (block_id (store (page s) ! k)) l"
proof (cases "trim l = []")
  case True
  then have "id_match (trim l) = None" by (simp add: id_match_def startsWith_def js_def)
  with True assms show ?thesis by (simp add: process_line_def id_step_def)
next
  case False
  with assms have "process_line s l = continuation_line s k (trim l)"
    by (simp add: process_line_def Let_def at_block_def)
  with assms show ?thesis
    by (simp add: at_block_def continuation_line_frame continuation_line_state
                  continuation_line_current id_step_def)
qed

lemma continuation_lines:
  "at_block k s \<Longrightarrow> list_all (\<lambda>l. \<not> isBlockLine l) ls \<Longrightarrow>
   at_block k (foldl process_line s ls) \<and>
   block_id (store (page (foldl process_line s ls)) ! k) =
     foldl id_step (block_id (store (page s) ! k)) ls"
proof (induction ls arbitrary: s)
  case Nil
  then show ?case by simp
next
  case (Cons l ls)
  from Cons.prems have nb: "\<not> isBlockLine l" and rest: "list_all (\<lambda>l. \<not> isBlockLine l) ls" by auto
  from continuation_step[OF Cons.prems(1) nb] Cons.IH[OF _ rest, of "process_line s l"]
  show ?case by simp
qed

text \<open>Later lines leave the id of the block at address \<open>k\<close> alone.\<close>

definition past_block :: "nat \<Rightarrow> parser_state \<Rightarrow> bool" where
  "past_block k s \<longleftrightarrow>
     k < length (store (page s)) \<and> (\<forall>c. currentBlock s = Some c \<longrightarrow> k < c)"

lemma past_block_step:
  assumes "past_block k s"
  shows "past_block k (process_line s l) \<and>
         block_id (store (page (process_line s l)) ! k) = block_id (store (page s) ! k)"
proof -
  from assms have k: "k < length (store (page s))" by (simp add: past_block_def)
  have a: "past_block k (add_block s l) \<and>
         block_id (store (page (add_block s l)) ! k) = block_id (store (page s) ! k)"
    using k by (simp add: past_block_def add_block_length add_block_current add_block_block_id_old)
  have c: "\<And>cur. currentBlock s = Some cur \<Longrightarrow>
         past_block k (continuation_line s cur (trim l)) \<and>
         block_id (store (page (continuation_line s cur (trim l))) ! k) = block_id (store (page s) ! k)"
    using assms
    by (auto simp: past_block_def continuation_line_frame continuation_line_state
                   continuation_line_other)
  have p: "\<And>ps. past_block k (s\<lparr>page := (page s)\<lparr>page_properties := ps\<rparr>\<rparr>) \<and>
         block_id (store (page (s\<lparr>page := (page s)\<lparr>page_properties := ps\<rparr>\<rparr>)) ! k) =
         block_id (store (page s) ! k)"
    using assms by (simp add: past_block_def)
  show ?thesis
    unfolding process_line_def Let_def
    using a c p assms by (simp split: option.splits)
qed

lemma past_block_lines:
  "past_block k s \<Longrightarrow>
   block_id (store (page (foldl process_line s ls)) ! k) = block_id (store (page s) ! k)"
proof (induction ls arbitrary: s)
  case Nil
  then show ?case by simp
next
  case (Cons l ls)
  from past_block_step[OF Cons.prems, of l] Cons.IH[of "process_line s l"]
  show ?case by simp
qed

lemma store_length_lines:
  "length (store (page (parse_lines file ls))) = length (filter isBlockLine ls)"
  using foldl_process_line_levels[of "initial_state file" ls]
  by (simp add: parse_lines_def levels_def initial_state_def)
     (metis length_map)

text \<open>
  Claim C3, as amended. Let a block line be followed by the continuation lines \<open>conts\<close>:
  all the lines up to the next block line, or up to the end of the file. Then the \<open>id\<close> of
  the block is the value of the last line of \<open>conts\<close> that matches the \<open>id::\<close> pattern
  once trimmed, and it is \<open>undefined\<close> if no line does: every matching line overwrites
  the \<open>id\<close>.
\<close>

theorem last_id_line_wins:
  "split_on 0xA (file_content file) = pre @ bl # conts @ rest \<and> isBlockLine bl \<and>
   list_all (\<lambda>l. \<not> isBlockLine l) conts \<and> (rest = [] \<or> isBlockLine (hd rest)) \<longrightarrow>
     block_id (store (parseLogseqFile file) ! length (filter isBlockLine pre)) = last_id conts"
proof
  assume h: "split_on 0xA (file_content file) = pre @ bl # conts @ rest \<and> isBlockLine bl \<and>
   list_all (\<lambda>l. \<not> isBlockLine l) conts \<and> (rest = [] \<or> isBlockLine (hd rest))"
  define k where "k = length (filter isBlockLine pre)"
  define s1 where "s1 = parse_lines file pre"
  define s2 where "s2 = process_line s1 bl"
  define s3 where "s3 = foldl process_line s2 conts"
  have len1: "length (store (page s1)) = k"
    unfolding s1_def k_def by (rule store_length_lines)
  have s2: "s2 = add_block s1 bl" unfolding s2_def using h by (simp add: process_block_line)
  have at2: "at_block k s2" and id2: "block_id (store (page s2) ! k) = None"
    unfolding s2 using len1 add_block_block_id_new[of s1 bl]
    by (simp_all add: at_block_def add_block_length add_block_current add_block_not_first)
  from continuation_lines[OF at2, of conts] h id2
  have at3: "at_block k s3" and id3: "block_id (store (page s3) ! k) = last_id conts"
    by (simp_all add: s3_def foldl_id_step last_id_def)
  have fin: "parse_lines file (pre @ bl # conts @ rest) = foldl process_line s3 rest"
    by (simp add: parse_lines_def s1_def s2_def s3_def)
  have "block_id (store (page (foldl process_line s3 rest)) ! k) = last_id conts"
  proof (cases rest)
    case Nil
    with id3 show ?thesis by simp
  next
    case (Cons r rs)
    with h have br: "isBlockLine r" by simp
    have pb: "past_block k (process_line s3 r)"
      using at3 by (simp add: process_block_line[OF br] past_block_def at_block_def
                              add_block_length add_block_current)
    have "block_id (store (page (process_line s3 r)) ! k) = last_id conts"
      using at3 id3
      by (simp add: process_block_line[OF br] add_block_block_id_old at_block_def)
    with past_block_lines[OF pb, of rs] Cons show ?thesis by simp
  qed
  with fin h show "block_id (store (parseLogseqFile file) ! length (filter isBlockLine pre)) = last_id conts"
    by (simp add: parseLogseqFile_def k_def)
qed

definition two_ids_file :: LogseqFile where
  "two_ids_file =
     \<lparr>path = js ''pages/Ids.md'',
      file_content = js ''title:: T\<newline>- a\<newline>  id:: x\<newline>  k:: v\<newline>  id:: y\<newline>- b\<newline>  id:: z''\<rparr>"

theorem last_id_line_wins_witness:
  "split_on 0xA (file_content two_ids_file) =
     [js ''title:: T''] @ js ''- a'' # [js ''  id:: x'', js ''  k:: v'', js ''  id:: y''] @
     [js ''- b'', js ''  id:: z''] \<and>
   isBlockLine (js ''- a'') \<and>
   list_all (\<lambda>l. \<not> isBlockLine l) [js ''  id:: x'', js ''  k:: v'', js ''  id:: y''] \<and>
   isBlockLine (hd [js ''- b'', js ''  id:: z'']) \<and>
   last_id [js ''  id:: x'', js ''  k:: v'', js ''  id:: y''] = Some (js ''y'') \<and>
   block_id (store (parseLogseqFile two_ids_file) ! 0) = Some (js ''y'')"
proof -
  have h: "split_on 0xA (file_content two_ids_file) =
     [js ''title:: T''] @ js ''- a'' # [js ''  id:: x'', js ''  k:: v'', js ''  id:: y''] @
     [js ''- b'', js ''  id:: z'']"
    "isBlockLine (js ''- a'')"
    "list_all (\<lambda>l. \<not> isBlockLine l) [js ''  id:: x'', js ''  k:: v'', js ''  id:: y'']"
    "isBlockLine (hd [js ''- b'', js ''  id:: z''])"
    "last_id [js ''  id:: x'', js ''  k:: v'', js ''  id:: y''] = Some (js ''y'')"
    "length (filter isBlockLine [js ''title:: T'']) = 0"
    by code_simp+
  from last_id_line_wins[of two_ids_file "[js ''title:: T'']" "js ''- a''"
        "[js ''  id:: x'', js ''  k:: v'', js ''  id:: y'']" "[js ''- b'', js ''  id:: z'']"] h(1-4)
  have "block_id (store (parseLogseqFile two_ids_file) ! length (filter isBlockLine [js ''title:: T''])) =
        last_id [js ''  id:: x'', js ''  k:: v'', js ''  id:: y'']"
    by blast
  then have "block_id (store (parseLogseqFile two_ids_file) ! 0) = Some (js ''y'')"
    unfolding h(5,6) .
  with h(1-5) show ?thesis by blast
qed

text \<open>
  Claim C3 as stated fails on a block with the continuation lines \<open>id:: x\<close> and
  \<open>id:: y\<close>: the \<open>id\<close> of the block is \<open>y\<close>, the value of the last such line, not
  \<open>x\<close>.
\<close>

theorem first_id_line_counterexample:
  "id_match (trim (js ''  id:: x'')) = Some (js ''x'') \<and>
   id_match (trim (js ''  id:: y'')) = Some (js ''y'') \<and>
   block_id (store (parseLogseqFile
      \<lparr>path = js ''pages/A.md'', file_content = js ''- a\<newline>  id:: x\<newline>  id:: y''\<rparr>) ! 0) =
     Some (js ''y'') \<and>
   block_id (store (parseLogseqFile
      \<lparr>path = js ''pages/A.md'', file_content = js ''- a\<newline>  id:: x\<newline>  id:: y''\<rparr>) ! 0) \<noteq>
     Some (js ''x'')"
  by code_simp


section \<open>Properties of parseContentToFragments\<close>

subsection \<open>Vocabulary\<close>

text \<open>
  \<open>plain_at r\<close>: none of the five recognizers of the loop body matches on the rest \<open>r\<close>
  of the text (the attachment expression is searched in all of \<open>r\<close>, as the loop does).
  \<open>plain_upto txt n\<close>: this holds at every position before \<open>n\<close>. \<open>no_inline_syntax
  txt\<close>: it holds at every position of the text.
\<close>

definition plain_at :: "jsstring \<Rightarrow> bool" where
  "plain_at r \<longleftrightarrow>
     embed_end r = None \<and> ref_end r = None \<and> link_end r = None \<and> tag_match r = None \<and>
     attachment_search r = None"

definition plain_upto :: "jsstring \<Rightarrow> nat \<Rightarrow> bool" where
  "plain_upto txt n = list_all (\<lambda>k. plain_at (drop k txt)) [0..<n]"

definition no_inline_syntax :: "jsstring \<Rightarrow> bool" where
  "no_inline_syntax txt = plain_upto txt (length txt)"

text \<open>
  An opening delimiter at the start of \<open>r\<close> with no closing counterpart anywhere in
  \<open>r\<close>.
\<close>

definition unclosed_delimiter :: "jsstring \<Rightarrow> bool" where
  "unclosed_delimiter r \<longleftrightarrow>
     (startsWith (js ''{{embed (('') r \<and> indexOf (js ''))}}'') r = None) \<or>
     (startsWith (js ''(('') r \<and> indexOf (js ''))'') r = None) \<or>
     ((startsWith (js ''[['') r \<or> startsWith (js ''#[['') r) \<and> indexOf (js '']]'') r = None)"

text \<open>
  The graphs of the examples: no block at all, a block that refers to itself, a block
  with the empty string as content.
\<close>

definition empty_graph :: LogseqGraph where
  "empty_graph = \<lparr>pages = [], blocks = Map.empty\<rparr>"

definition cyclic_graph :: LogseqGraph where
  "cyclic_graph =
     \<lparr>pages = [],
      blocks = [js ''a'' \<mapsto> \<lparr>block_id = Some (js ''a''), content = js ''see ((a))'',
                                properties = [], children = [], level = 0\<rparr>]\<rparr>"

definition empty_block :: LogseqBlock where
  "empty_block = \<lparr>block_id = Some (js ''u''), content = [], properties = [], children = [], level = 0\<rparr>"

definition empty_block_graph :: LogseqGraph where
  "empty_block_graph = \<lparr>pages = [], blocks = [js ''u'' \<mapsto> empty_block]\<rparr>"

subsection \<open>The loop\<close>

text \<open>One iteration of the loop, by the outcome of the scan.\<close>

lemma parse_loop_done:
  "\<not> i < length txt \<Longrightarrow> parse_loop txt g m i buf frs = frs @ flushBuffer buf"
  by (subst parse_loop.simps) simp

lemma parse_loop_emit:
  "i < length txt \<Longrightarrow> scan (drop i txt) g m = Emit f n \<Longrightarrow>
   parse_loop txt g m i buf frs = parse_loop txt g m (i + n) [] (frs @ flushBuffer buf @ [f])"
  by (subst parse_loop.simps) simp

lemma parse_loop_plain:
  "i < length txt \<Longrightarrow> scan (drop i txt) g m = Plain \<Longrightarrow>
   parse_loop txt g m i buf frs = parse_loop txt g m (Suc i) (buf @ [txt ! i]) frs"
  by (subst parse_loop.simps) simp

text \<open>Induction on the distance of the cursor to the end of the text.\<close>

lemma cursor_induct [consumes 0, case_names step]:
  assumes "\<And>i. (\<And>f n. i < length txt \<Longrightarrow> scan (drop i txt) g m = Emit f n \<Longrightarrow> P (i + n)) \<Longrightarrow>
                (i < length txt \<Longrightarrow> scan (drop i txt) g m = Plain \<Longrightarrow> P (Suc i)) \<Longrightarrow> P i"
  shows "P i"
proof (induction "length txt - i" arbitrary: i rule: less_induct)
  case less
  show ?case
  proof (rule assms)
    fix f n assume "i < length txt" "scan (drop i txt) g m = Emit f n"
    then have "length txt - (i + n) < length txt - i" using scan_advances by fastforce
    then show "P (i + n)" by (rule less)
  next
    assume "i < length txt"
    then have "length txt - Suc i < length txt - i" by simp
    then show "P (Suc i)" by (rule less)
  qed
qed

lemma parse_loop_fragments:
  "parse_loop txt g m i buf frs = frs @ parse_loop txt g m i buf []"
proof -
  have "\<forall>buf frs. parse_loop txt g m i buf frs = frs @ parse_loop txt g m i buf []"
  proof (induction i rule: cursor_induct[of "txt" g m])
    case (step i)
    show ?case
    proof (cases "i < length txt")
      case False
      then show ?thesis by (simp add: parse_loop_done)
    next
      case True
      show ?thesis
      proof (cases "scan (drop i txt) g m")
        case (Emit f n)
        from step(1)[OF True Emit] show ?thesis
          by (metis parse_loop_emit[OF True Emit] append.assoc append_Nil)
      next
        case Plain
        from step(2)[OF True Plain] show ?thesis
          by (metis parse_loop_plain[OF True Plain])
      qed
    qed
  qed
  then show ?thesis by blast
qed

text \<open>The loop only reads the text from the cursor on.\<close>

lemma parse_loop_append:
  "parse_loop (pre @ r) g m (length pre + i) buf frs = parse_loop r g m i buf frs"
proof -
  have "\<forall>buf frs. parse_loop (pre @ r) g m (length pre + i) buf frs = parse_loop r g m i buf frs"
  proof (induction i rule: cursor_induct[of r g m])
    case (step i)
    show ?case
    proof (cases "i < length r")
      case False
      then show ?thesis by (simp add: parse_loop_done)
    next
      case True
      then have lt: "length pre + i < length (pre @ r)" by simp
      have dr: "drop (length pre + i) (pre @ r) = drop i r" by simp
      have nt: "(pre @ r) ! (length pre + i) = r ! i" by (simp add: nth_append)
      show ?thesis
      proof (cases "scan (drop i r) g m")
        case (Emit f n)
        from Emit have e: "scan (drop (length pre + i) (pre @ r)) g m = Emit f n" by (simp only: dr)
        show ?thesis
          using step(1)[OF True Emit] parse_loop_emit[OF lt e] parse_loop_emit[OF True Emit]
          by (simp add: add.assoc)
      next
        case Plain
        from Plain have e: "scan (drop (length pre + i) (pre @ r)) g m = Plain" by (simp only: dr)
        show ?thesis
          using step(2)[OF True Plain] parse_loop_plain[OF lt e] parse_loop_plain[OF True Plain] nt
          by simp
      qed
    qed
  qed
  then show ?thesis by blast
qed

lemma parse_loop_suffix:
  "i \<le> length txt \<Longrightarrow> parse_loop txt g m i buf frs = parse_loop (drop i txt) g m 0 buf frs"
  using parse_loop_append[of "take i txt" "drop i txt" g m 0 buf frs] by (simp add: min_absorb2)

lemma parse_loop_beyond:
  "length txt \<le> i \<Longrightarrow> parse_loop txt g m i buf frs = parse_loop (drop i txt) g m 0 buf frs"
  by (simp add: parse_loop_done)

lemma parse_loop_drop:
  "parse_loop txt g m i buf frs = parse_loop (drop i txt) g m 0 buf frs"
proof (cases "i \<le> length txt")
  case True
  then show ?thesis by (rule parse_loop_suffix)
next
  case False
  then show ?thesis by (intro parse_loop_beyond) simp
qed

text \<open>A recognized fragment at the cursor, and the rest of the scan.\<close>

lemma parse_loop_emit_rest:
  assumes "i < length txt" "scan (drop i txt) g m = Emit f n"
  shows "parse_loop txt g m i buf frs =
           frs @ flushBuffer buf @ [f] @ parseContentToFragments (drop (i + n) txt) g m"
proof -
  have "parse_loop txt g m i buf frs = parse_loop txt g m (i + n) [] (frs @ flushBuffer buf @ [f])"
    by (rule parse_loop_emit[OF assms])
  also have "\<dots> = (frs @ flushBuffer buf @ [f]) @ parse_loop txt g m (i + n) [] []"
    by (rule parse_loop_fragments)
  also have "parse_loop txt g m (i + n) [] [] = parseContentToFragments (drop (i + n) txt) g m"
    unfolding parseContentToFragments_def by (rule parse_loop_drop)
  finally show ?thesis by simp
qed

lemma scan_plain_iff: "scan r g m = Plain \<longleftrightarrow> plain_at r"
  by (auto simp: scan_def plain_at_def Let_def split: option.splits)

lemma scan_embed:
  "embed_end r = Some e \<Longrightarrow>
   scan r g m = Emit (block_ref_fragment (block_ref_value g (substring 10 e r)) (substring 10 e r)) (e + 4)"
  by (simp add: scan_def Let_def)

lemma startsWith_Nil [simp]: "startsWith [] s"
  by (simp add: startsWith_def)

lemma startsWith_Cons: "startsWith (p # ps) s \<longleftrightarrow> (\<exists>cs. s = p # cs \<and> startsWith ps cs)"
  by (cases s) (auto simp: startsWith_def)

lemma ref_not_embed: "ref_end r = Some e \<Longrightarrow> embed_end r = None"
  by (auto simp: ref_end_def embed_end_def js_def startsWith_Cons split: if_splits)

lemma scan_ref:
  "ref_end r = Some e \<Longrightarrow>
   scan r g m = Emit (block_ref_fragment (block_ref_value g (substring 2 e r)) (substring 2 e r)) (e + 2)"
  by (simp add: scan_def Let_def ref_not_embed)

lemma plain_upto_Suc: "plain_upto txt (Suc n) \<longleftrightarrow> plain_upto txt n \<and> plain_at (drop n txt)"
  by (auto simp: plain_upto_def)

lemma plain_prefix_loop:
  "plain_upto txt n \<Longrightarrow> n \<le> length txt \<Longrightarrow>
   parse_loop txt g m 0 [] [] = parse_loop txt g m n (take n txt) []"
proof (induction n)
  case 0
  then show ?case by simp
next
  case (Suc n)
  then have a: "parse_loop txt g m 0 [] [] = parse_loop txt g m n (take n txt) []"
    and p: "scan (drop n txt) g m = Plain" and lt: "n < length txt"
    by (simp_all add: plain_upto_Suc scan_plain_iff)
  show ?case
    using a parse_loop_plain[OF lt p, of "take n txt" "[]"] lt
    by (simp add: take_Suc_conv_app_nth)
qed

lemma parse_plain_then_emit:
  assumes "plain_upto txt i" "i < length txt" "scan (drop i txt) g m = Emit f n"
  shows "parseContentToFragments txt g m =
           flushBuffer (take i txt) @ [f] @ parseContentToFragments (drop (i + n) txt) g m"
  using plain_prefix_loop[OF assms(1), of g m] assms(2)
        parse_loop_emit_rest[OF assms(2,3), of "take i txt" "[]"]
  by (simp add: parseContentToFragments_def)

lemma parse_no_inline_syntax:
  "no_inline_syntax txt \<Longrightarrow> parseContentToFragments txt g m = flushBuffer txt"
  using plain_prefix_loop[of "txt" "length txt" g m]
  by (simp add: no_inline_syntax_def parseContentToFragments_def parse_loop_done)

subsection \<open>Text without inline syntax\<close>

text \<open>
  Claim C6, as amended. A text in which no recognizer matches at any position gives
  exactly one plain-text fragment whose value is the text, unless the text is empty: for
  the empty text the result is the empty list, since \<open>flushBuffer\<close> pushes nothing for
  an empty buffer.
\<close>

theorem plain_text_round_trip:
  "no_inline_syntax txt \<longrightarrow>
     parseContentToFragments txt g m = (if txt = [] then [] else [text_fragment txt])"
  by (simp add: parse_no_inline_syntax flushBuffer_def)

theorem plain_text_round_trip_witness:
  "no_inline_syntax (js ''plain (text) [no] #'') \<and>
   parseContentToFragments (js ''plain (text) [no] #'') empty_graph Map.empty =
     [text_fragment (js ''plain (text) [no] #'')]"
proof -
  have h: "no_inline_syntax (js ''plain (text) [no] #'')" by code_simp
  have ne: "js ''plain (text) [no] #'' \<noteq> []" by (simp add: js_def)
  from plain_text_round_trip[of "js ''plain (text) [no] #''" empty_graph Map.empty] h ne
  show ?thesis by simp
qed

text \<open>
  Claim C6 as stated fails on the empty text, which has no inline syntax: the result is
  \<open>[]\<close>, not one fragment with the empty string.
\<close>

theorem empty_text_counterexample:
  "no_inline_syntax [] \<and> parseContentToFragments [] empty_graph Map.empty = [] \<and>
   parseContentToFragments [] empty_graph Map.empty \<noteq> [text_fragment []]"
  by code_simp

subsection \<open>Unresolved references\<close>

text \<open>
  Claim C5, as amended. Whenever the cursor of the loop stands at a closed block
  reference \<open>((id))\<close> or block embed \<open>{{embed ((id))}}\<close> whose id is not in the graph's
  block index, the loop pushes the reference fragment \<open>{t: "r", v: placeholder, q: id}\<close>,
  whose value is the placeholder text ending in the literal id, and goes on behind the
  reference. The cursor does stand there when no recognizer matches at any position
  before the reference, the attachment expression being searched, as the loop searches
  it, from each of these positions to the end of the text: then the result of
  parseContentToFragments is the text before, this fragment, and the fragments of the
  rest. (That no inline syntax stands before the reference is not enough for this: an
  attachment behind the reference is found from the positions before it.) The function
  has no throwing path: its model is a total function with no error result.
\<close>

theorem unresolved_reference_placeholder:
  "(i < length txt \<and> ref_end (drop i txt) = Some e \<and> substring 2 e (drop i txt) = u \<and>
    blocks g u = None \<longrightarrow>
      parse_loop txt g m i buf frs =
        frs @ flushBuffer buf @ [block_ref_fragment (blockNotFound u) u] @
        parseContentToFragments (drop (i + (e + 2)) txt) g m) \<and>
   (i < length txt \<and> embed_end (drop i txt) = Some e \<and> substring 10 e (drop i txt) = u \<and>
    blocks g u = None \<longrightarrow>
      parse_loop txt g m i buf frs =
        frs @ flushBuffer buf @ [block_ref_fragment (blockNotFound u) u] @
        parseContentToFragments (drop (i + (e + 4)) txt) g m) \<and>
   (plain_upto txt i \<and> i < length txt \<and> ref_end (drop i txt) = Some e \<and>
    substring 2 e (drop i txt) = u \<and> blocks g u = None \<longrightarrow>
      parseContentToFragments txt g m =
        flushBuffer (take i txt) @ [block_ref_fragment (blockNotFound u) u] @
        parseContentToFragments (drop (i + (e + 2)) txt) g m) \<and>
   (plain_upto txt i \<and> i < length txt \<and> embed_end (drop i txt) = Some e \<and>
    substring 10 e (drop i txt) = u \<and> blocks g u = None \<longrightarrow>
      parseContentToFragments txt g m =
        flushBuffer (take i txt) @ [block_ref_fragment (blockNotFound u) u] @
        parseContentToFragments (drop (i + (e + 4)) txt) g m)"
proof (intro conjI impI)
  assume h: "i < length txt \<and> ref_end (drop i txt) = Some e \<and> substring 2 e (drop i txt) = u \<and>
    blocks g u = None"
  then have "scan (drop i txt) g m = Emit (block_ref_fragment (blockNotFound u) u) (e + 2)"
    by (auto simp: scan_ref block_ref_value_def)
  with h show "parse_loop txt g m i buf frs =
        frs @ flushBuffer buf @ [block_ref_fragment (blockNotFound u) u] @
        parseContentToFragments (drop (i + (e + 2)) txt) g m"
    by (intro parse_loop_emit_rest) auto
next
  assume h: "i < length txt \<and> embed_end (drop i txt) = Some e \<and> substring 10 e (drop i txt) = u \<and>
    blocks g u = None"
  then have "scan (drop i txt) g m = Emit (block_ref_fragment (blockNotFound u) u) (e + 4)"
    by (auto simp: scan_embed block_ref_value_def)
  with h show "parse_loop txt g m i buf frs =
        frs @ flushBuffer buf @ [block_ref_fragment (blockNotFound u) u] @
        parseContentToFragments (drop (i + (e + 4)) txt) g m"
    by (intro parse_loop_emit_rest) auto
next
  assume h: "plain_upto txt i \<and> i < length txt \<and> ref_end (drop i txt) = Some e \<and>
    substring 2 e (drop i txt) = u \<and> blocks g u = None"
  then have "scan (drop i txt) g m = Emit (block_ref_fragment (blockNotFound u) u) (e + 2)"
    by (auto simp: scan_ref block_ref_value_def)
  with h show "parseContentToFragments txt g m =
        flushBuffer (take i txt) @ [block_ref_fragment (blockNotFound u) u] @
        parseContentToFragments (drop (i + (e + 2)) txt) g m"
    by (intro parse_plain_then_emit) auto
next
  assume h: "plain_upto txt i \<and> i < length txt \<and> embed_end (drop i txt) = Some e \<and>
    substring 10 e (drop i txt) = u \<and> blocks g u = None"
  then have "scan (drop i txt) g m = Emit (block_ref_fragment (blockNotFound u) u) (e + 4)"
    by (auto simp: scan_embed block_ref_value_def)
  with h show "parseContentToFragments txt g m =
        flushBuffer (take i txt) @ [block_ref_fragment (blockNotFound u) u] @
        parseContentToFragments (drop (i + (e + 4)) txt) g m"
    by (intro parse_plain_then_emit) auto
qed

text \<open>The example of the specification, \<open>See ((zzz))\<close>, and an embed.\<close>

theorem unresolved_reference_placeholder_witness:
  "plain_upto (js ''See ((zzz))'') 4 \<and> 4 < length (js ''See ((zzz))'') \<and>
   ref_end (drop 4 (js ''See ((zzz))'')) = Some 5 \<and>
   substring 2 5 (drop 4 (js ''See ((zzz))'')) = js ''zzz'' \<and>
   blocks empty_graph (js ''zzz'') = None \<and>
   parseContentToFragments (js ''See ((zzz))'') empty_graph Map.empty =
     [text_fragment (js ''See ''), block_ref_fragment (blockNotFound (js ''zzz'')) (js ''zzz'')] \<and>
   plain_upto (js ''{{embed ((zzz))}}!'') 0 \<and> 0 < length (js ''{{embed ((zzz))}}!'') \<and>
   embed_end (drop 0 (js ''{{embed ((zzz))}}!'')) = Some 13 \<and>
   substring 10 13 (drop 0 (js ''{{embed ((zzz))}}!'')) = js ''zzz'' \<and>
   parseContentToFragments (js ''{{embed ((zzz))}}!'') empty_graph Map.empty =
     [block_ref_fragment (blockNotFound (js ''zzz'')) (js ''zzz''), text_fragment (js ''!'')] \<and>
   parse_loop (js ''See ((zzz))'') empty_graph Map.empty 4 (js ''See '') [] =
     [text_fragment (js ''See ''), block_ref_fragment (blockNotFound (js ''zzz'')) (js ''zzz'')] \<and>
   parse_loop (js ''{{embed ((zzz))}}!'') empty_graph Map.empty 0 [] [] =
     [block_ref_fragment (blockNotFound (js ''zzz'')) (js ''zzz''), text_fragment (js ''!'')]"
proof -
  have r: "plain_upto (js ''See ((zzz))'') 4 \<and> 4 < length (js ''See ((zzz))'') \<and>
      ref_end (drop 4 (js ''See ((zzz))'')) = Some 5 \<and>
      substring 2 5 (drop 4 (js ''See ((zzz))'')) = js ''zzz'' \<and>
      blocks empty_graph (js ''zzz'') = None"
    by code_simp
  have e: "plain_upto (js ''{{embed ((zzz))}}!'') 0 \<and> 0 < length (js ''{{embed ((zzz))}}!'') \<and>
      embed_end (drop 0 (js ''{{embed ((zzz))}}!'')) = Some 13 \<and>
      substring 10 13 (drop 0 (js ''{{embed ((zzz))}}!'')) = js ''zzz'' \<and>
      blocks empty_graph (js ''zzz'') = None"
    by code_simp
  note R = unresolved_reference_placeholder
             [of 4 "js ''See ((zzz))''" 5 "js ''zzz''" empty_graph Map.empty "js ''See ''" "[]"]
  note E = unresolved_reference_placeholder
             [of 0 "js ''{{embed ((zzz))}}!''" 13 "js ''zzz''" empty_graph Map.empty "[]" "[]"]
  have rest_r: "parseContentToFragments (drop (4 + (5 + 2)) (js ''See ((zzz))'')) empty_graph Map.empty = []"
    and fl_r: "flushBuffer (take 4 (js ''See ((zzz))'')) = [text_fragment (js ''See '')]"
    and fl_r': "flushBuffer (js ''See '') = [text_fragment (js ''See '')]"
    and rest_e: "parseContentToFragments (drop (0 + (13 + 4)) (js ''{{embed ((zzz))}}!'')) empty_graph Map.empty
                  = [text_fragment (js ''!'')]"
    and fl_e: "flushBuffer (take 0 (js ''{{embed ((zzz))}}!'')) = []" "flushBuffer [] = []"
    by code_simp+
  from R r have r1: "parse_loop (js ''See ((zzz))'') empty_graph Map.empty 4 (js ''See '') [] =
     [text_fragment (js ''See ''), block_ref_fragment (blockNotFound (js ''zzz'')) (js ''zzz'')]"
    unfolding rest_r fl_r' by simp
  from R r have r3: "parseContentToFragments (js ''See ((zzz))'') empty_graph Map.empty =
     [text_fragment (js ''See ''), block_ref_fragment (blockNotFound (js ''zzz'')) (js ''zzz'')]"
    unfolding rest_r fl_r by simp
  from E e have e2: "parse_loop (js ''{{embed ((zzz))}}!'') empty_graph Map.empty 0 [] [] =
     [block_ref_fragment (blockNotFound (js ''zzz'')) (js ''zzz''), text_fragment (js ''!'')]"
    unfolding rest_e fl_e by simp
  from E e have e4: "parseContentToFragments (js ''{{embed ((zzz))}}!'') empty_graph Map.empty =
     [block_ref_fragment (blockNotFound (js ''zzz'')) (js ''zzz''), text_fragment (js ''!'')]"
    unfolding rest_e fl_e by simp
  from r e r1 r3 e2 e4 show ?thesis by blast
qed

text \<open>
  Claim C5 as stated fails on a text that contains \<open>((zzz))\<close> inside the alt text of
  an attachment link: the attachment recognizer takes the whole link at the cursor, and
  the result has no reference fragment.
\<close>

theorem reference_in_alt_text_counterexample:
  "indexOf (js ''((zzz))'') (js ''[((zzz))](p)'') = Some 1 \<and>
   blocks empty_graph (js ''zzz'') = None \<and>
   parseContentToFragments (js ''[((zzz))](p)'') empty_graph Map.empty =
     [text_fragment (attachmentNotFound (js ''p''))] \<and>
   \<not> list_ex (\<lambda>f. frag_t f = js ''r'')
        (parseContentToFragments (js ''[((zzz))](p)'') empty_graph Map.empty)"
  by code_simp

subsection \<open>What a match reports is what stands in the text\<close>

lemma startsWith_append: "startsWith p s \<Longrightarrow> s = p @ drop (length p) s"
  unfolding startsWith_def by (metis append_take_drop_id)

lemma startsWith_length: "startsWith p s \<Longrightarrow> length p \<le> length s"
  by (drule startsWith_append) (metis length_append le_add1)

lemma indexOf_bound: "indexOf p s = Some e \<Longrightarrow> e + length p \<le> length s"
proof (induction s arbitrary: e)
  case Nil
  then show ?case by (simp split: if_splits)
next
  case (Cons c cs)
  show ?case
  proof (cases "startsWith p (c # cs)")
    case True
    with Cons.prems have "e = 0" by simp
    moreover from True have "length p \<le> length (c # cs)"
      by (rule startsWith_length)
    ultimately show ?thesis by simp
  next
    case False
    with Cons.prems obtain e' where "indexOf p cs = Some e'" "e = Suc e'" by auto
    with Cons.IH show ?thesis by simp
  qed
qed

lemma attrs_lazy_text: "attrs_lazy acc s = Some (a, r) \<Longrightarrow> acc @ s = a @ js ''}'' @ r"
  by (induction acc s rule: attrs_lazy.induct) (auto simp: js_def split: if_splits)

lemma attachment_tail_text: "attachment_tail s = (t, a) \<Longrightarrow> \<exists>r. s = t @ r"
proof -
  assume h: "attachment_tail s = (t, a)"
  have ws: "s = takeWhile isWhiteSpace s @ dropWhile isWhiteSpace s" by simp
  show ?thesis
  proof (cases "startsWith (js ''{:'') (dropWhile isWhiteSpace s)")
    case False
    with h have "t = takeWhile isWhiteSpace s" by (simp add: attachment_tail_def Let_def)
    with ws show ?thesis by metis
  next
    case True
    have len2: "length (js ''{:'') = 2" by (simp add: js_def)
    from startsWith_append[OF True]
    have d: "dropWhile isWhiteSpace s = js ''{:'' @ drop 2 (dropWhile isWhiteSpace s)"
      unfolding len2 .
    show ?thesis
    proof (cases "attrs_lazy [] (drop 2 (dropWhile isWhiteSpace s))")
      case None
      with h True have "t = takeWhile isWhiteSpace s" by (simp add: attachment_tail_def Let_def)
      with ws show ?thesis by metis
    next
      case (Some ar)
      obtain a' r where ar: "ar = (a', r)" by (cases ar)
      from attrs_lazy_text[OF Some[unfolded ar]]
      have "drop 2 (dropWhile isWhiteSpace s) = a' @ js ''}'' @ r" by simp
      with d have "dropWhile isWhiteSpace s = js ''{:'' @ a' @ js ''}'' @ r" by simp
      with ws have "s = (takeWhile isWhiteSpace s @ js ''{:'' @ a' @ js ''}'') @ r" by simp
      moreover from h True Some ar have "t = takeWhile isWhiteSpace s @ js ''{:'' @ a' @ js ''}''"
        by (simp add: attachment_tail_def Let_def)
      ultimately show ?thesis by metis
    qed
  qed
qed

lemma path_lazy_text:
  "path_lazy acc s = Some (p, t, a) \<Longrightarrow> \<exists>r. acc @ s = p @ js '')'' @ t @ r"
proof (induction acc s rule: path_lazy.induct)
  case (1 acc)
  then show ?case by simp
next
  case (2 acc c cs)
  show ?case
  proof (cases "c = 0x29")
    case True
    with "2.prems" have "p = acc" "attachment_tail cs = (t, a)" by simp_all
    with attachment_tail_text[of cs t a] True show ?thesis by (auto simp: js_def)
  next
    case False
    with "2.prems" have nl: "\<not> isLineTerminator c" and "path_lazy (acc @ [c]) cs = Some (p, t, a)"
      by (simp_all split: if_splits)
    with "2.IH"[OF False] show ?thesis by simp
  qed
qed

lemma alt_lazy_text:
  "alt_lazy acc s = Some (alt, p, t, a) \<Longrightarrow> \<exists>r. acc @ s = alt @ js '']('' @ p @ js '')'' @ t @ r"
proof (induction acc s rule: alt_lazy.induct)
  case (1 acc)
  then show ?case by simp
next
  case (2 acc c cs)
  let ?k = "if startsWith (js '']('') (c # cs) then path_lazy [] (drop 2 (c # cs)) else None"
  show ?case
  proof (cases ?k)
    case (Some r)
    with "2.prems" have acc: "alt = acc" and r: "r = (p, t, a)" by simp_all
    from Some have sw: "startsWith (js '']('') (c # cs)"
      and pl: "path_lazy [] (drop 2 (c # cs)) = Some (p, t, a)"
      by (simp_all add: r split: if_splits)
    have len2: "length (js '']('') = 2" by (simp add: js_def)
    from startsWith_append[OF sw] have "c # cs = js '']('' @ drop 2 (c # cs)"
      unfolding len2 .
    moreover from path_lazy_text[OF pl] obtain r' where "drop 2 (c # cs) = p @ js '')'' @ t @ r'"
      by auto
    ultimately have "acc @ c # cs = acc @ js '']('' @ p @ js '')'' @ t @ r'"
      by (simp only:)
    with acc show ?thesis by blast
  next
    case None
    with "2.prems" have nl: "\<not> isLineTerminator c"
      and rec: "alt_lazy (acc @ [c]) cs = Some (alt, p, t, a)"
      by (simp_all split: if_splits)
    from "2.IH"[OF None nl rec] show ?thesis by simp
  qed
qed

lemma attachment_from_bracket_text:
  "attachment_from_bracket bang s = Some mt \<Longrightarrow> \<exists>r. bang @ s = fullMatch mt @ r"
proof -
  assume h: "attachment_from_bracket bang s = Some mt"
  then obtain cs where s: "s = 0x5B # cs"
    by (auto simp: attachment_from_bracket_def split: list.splits if_splits)
  with h obtain alt p t a where al: "alt_lazy [] cs = Some (alt, p, t, a)"
    and mt: "fullMatch mt = bang @ js ''['' @ alt @ js '']('' @ p @ js '')'' @ t"
    by (auto simp: attachment_from_bracket_def split: option.splits)
  from alt_lazy_text[OF al] obtain r where "cs = alt @ js '']('' @ p @ js '')'' @ t @ r" by auto
  with s mt have "bang @ s = fullMatch mt @ r" by (simp add: js_def)
  then show ?thesis ..
qed

lemma attachment_at_text: "attachment_at s = Some mt \<Longrightarrow> \<exists>r. s = fullMatch mt @ r"
proof -
  assume h: "attachment_at s = Some mt"
  show ?thesis
  proof (cases "startsWith (js ''!'') s \<and> attachment_from_bracket (js ''!'') (drop 1 s) = Some mt")
    case True
    then have "startsWith (js ''!'') s" by simp
    have len1: "length (js ''!'') = 1" by (simp add: js_def)
    from startsWith_append[OF \<open>startsWith (js ''!'') s\<close>] have "s = js ''!'' @ drop 1 s"
      unfolding len1 .
    with attachment_from_bracket_text[of "js ''!''" "drop 1 s" mt] True show ?thesis by auto
  next
    case False
    with h have "attachment_from_bracket [] s = Some mt"
      by (auto simp: attachment_at_def split: option.splits if_splits)
    from attachment_from_bracket_text[OF this] show ?thesis by simp
  qed
qed

lemma attachment_search_text:
  "attachment_search s = Some (k, mt) \<Longrightarrow> k \<le> length s \<and> (\<exists>r. drop k s = fullMatch mt @ r)"
proof (induction s arbitrary: k)
  case Nil
  then show ?case by simp
next
  case (Cons c cs)
  show ?case
  proof (cases "attachment_at (c # cs)")
    case (Some mt')
    with Cons.prems have "k = 0" "mt' = mt" by simp_all
    with attachment_at_text[OF Some] show ?thesis by simp
  next
    case None
    with Cons.prems obtain k' where "attachment_search cs = Some (k', mt)" "k = Suc k'" by auto
    with Cons.IH show ?thesis by simp
  qed
qed

lemma attachment_search_bound:
  "attachment_search s = Some (k, mt) \<Longrightarrow> k + length (fullMatch mt) \<le> length s"
proof -
  assume "attachment_search s = Some (k, mt)"
  from attachment_search_text[OF this] obtain r where k: "k \<le> length s"
    and d: "drop k s = fullMatch mt @ r" by auto
  from d have "length (drop k s) = length (fullMatch mt) + length r" by simp
  with k show ?thesis by simp
qed

lemma scan_within: "scan r g m = Emit f n \<Longrightarrow> 0 < n \<and> n \<le> length r"
proof -
  assume h: "scan r g m = Emit f n"
  have "n \<le> length r"
  proof (cases "embed_end r")
    case (Some e)
    then have "e + length (js ''))}}'') \<le> length r"
      by (auto simp: embed_end_def split: if_splits dest: indexOf_bound)
    with h Some show ?thesis by (simp add: scan_embed js_def)
  next
    case ne: None
    show ?thesis
    proof (cases "ref_end r")
      case (Some e)
      then have "e + length (js ''))'') \<le> length r"
        by (auto simp: ref_end_def split: if_splits dest: indexOf_bound)
      with h Some show ?thesis by (simp add: scan_ref js_def)
    next
      case nr: None
      show ?thesis
      proof (cases "link_end r")
        case (Some e)
        then have "e + length (js '']]'') \<le> length r"
          by (auto simp: link_end_def split: if_splits dest: indexOf_bound)
        with h ne nr Some show ?thesis by (simp add: scan_def Let_def js_def)
      next
        case nl: None
        show ?thesis
        proof (cases "tag_match r")
          case (Some tk)
          then obtain c cs where "r = c # cs" "tk = takeWhile isTagChar cs"
            by (auto simp: tag_match_def split: list.splits if_splits)
          then have "1 + length tk \<le> length r" by (simp add: length_takeWhile_le)
          with h ne nr nl Some show ?thesis by (simp add: scan_def)
        next
          case nt: None
          show ?thesis
          proof (cases "attachment_search r")
            case None
            with h ne nr nl nt show ?thesis by (simp add: scan_def)
          next
            case (Some km)
            obtain k mt where km: "km = (k, mt)" by (cases km)
            from attachment_search_bound[OF Some[unfolded km]]
            have "length (fullMatch mt) \<le> length r" by simp
            with h ne nr nl nt Some km show ?thesis by (simp add: scan_def)
          qed
        qed
      qed
    qed
  qed
  with scan_advances[OF h] show ?thesis by simp
qed

lemma parse_loop_length:
  "length (parse_loop txt g m i buf []) \<le> (length txt - i) + length (flushBuffer buf)"
proof -
  have "\<forall>buf. length (parse_loop txt g m i buf []) \<le> (length txt - i) + length (flushBuffer buf)"
  proof (induction i rule: cursor_induct[of "txt" g m])
    case (step i)
    show ?case
    proof (cases "i < length txt")
      case False
      then show ?thesis by (simp add: parse_loop_done)
    next
      case True
      show ?thesis
      proof (cases "scan (drop i txt) g m")
        case (Emit f n)
        from scan_advances[OF Emit] have n: "0 < n" .
        show ?thesis
        proof
          fix buf
          have "parse_loop txt g m i buf [] = parse_loop txt g m (i + n) [] ([] @ flushBuffer buf @ [f])"
            by (rule parse_loop_emit[OF True Emit])
          also have "\<dots> = (flushBuffer buf @ [f]) @ parse_loop txt g m (i + n) [] []"
            using parse_loop_fragments[of "txt" g m "i + n" "[]" "flushBuffer buf @ [f]"] by simp
          finally have "length (parse_loop txt g m i buf []) =
              length (flushBuffer buf) + 1 + length (parse_loop txt g m (i + n) [] [])" by simp
          moreover from step(1)[OF True Emit, rule_format, of "[]"]
          have "length (parse_loop txt g m (i + n) [] []) \<le> length txt - (i + n)"
            by (simp add: flushBuffer_def)
          ultimately show "length (parse_loop txt g m i buf []) \<le>
              (length txt - i) + length (flushBuffer buf)"
            using n True by simp
        qed
      next
        case Plain
        show ?thesis
        proof
          fix buf
          have "parse_loop txt g m i buf [] = parse_loop txt g m (Suc i) (buf @ [txt ! i]) []"
            by (rule parse_loop_plain[OF True Plain])
          moreover from step(2)[OF True Plain, rule_format, of "buf @ [txt ! i]"]
          have "length (parse_loop txt g m (Suc i) (buf @ [txt ! i]) []) \<le> (length txt - Suc i) + 1"
            by (simp add: flushBuffer_def)
          ultimately show "length (parse_loop txt g m i buf []) \<le>
              (length txt - i) + length (flushBuffer buf)"
            using True by simp
        qed
      qed
    qed
  qed
  then show ?thesis by blast
qed

lemma unclosed_plain:
  "unclosed_delimiter r \<Longrightarrow> attachment_search r = None \<Longrightarrow> plain_at r"
  unfolding unclosed_delimiter_def plain_at_def embed_end_def ref_end_def link_end_def tag_match_def
  by (auto simp: js_def startsWith_Cons isTagChar_def split: list.splits)

lemma scan_graph_cong:
  "\<forall>x. block_ref_value g x = block_ref_value g' x \<Longrightarrow> scan r g m = scan r g' m"
  by (auto simp: scan_def Let_def split: option.splits)

lemma parse_loop_graph_cong:
  assumes "\<forall>x. block_ref_value g x = block_ref_value g' x"
  shows "parse_loop txt g m i buf frs = parse_loop txt g' m i buf frs"
proof -
  have "\<forall>buf frs. parse_loop txt g m i buf frs = parse_loop txt g' m i buf frs"
  proof (induction i rule: cursor_induct[of "txt" g m])
    case (step i)
    show ?case
    proof (cases "i < length txt")
      case False
      then show ?thesis by (simp add: parse_loop_done)
    next
      case True
      show ?thesis
      proof (cases "scan (drop i txt) g m")
        case (Emit f n)
        then have e': "scan (drop i txt) g' m = Emit f n"
          using scan_graph_cong[OF assms] by simp
        show ?thesis
          using step(1)[OF True Emit] parse_loop_emit[OF True Emit] parse_loop_emit[OF True e']
          by simp
      next
        case Plain
        then have p': "scan (drop i txt) g' m = Plain"
          using scan_graph_cong[OF assms] by simp
        show ?thesis
          using step(2)[OF True Plain] parse_loop_plain[OF True Plain] parse_loop_plain[OF True p']
          by simp
      qed
    qed
  qed
  then show ?thesis by blast
qed

subsection \<open>Termination, one level of substitution, unclosed delimiters\<close>

text \<open>
  Claim C7, as amended. For every text, graph and asset map the loop ends, with at most
  as many fragments as the text has code units. Every recognizer that fires moves the
  cursor forward and not beyond the end of the text. At a closed block reference or
  embed whose block has a non-empty content, the fragment's value is that content as it
  stands, and the scan goes on in the input text behind the reference: the content is
  never scanned, so a block that refers to itself is harmless. An opening delimiter with
  no closing counterpart is passed on to the later recognizers; when the attachment
  expression matches nowhere in the rest of the text, its first character goes to the
  plain-text buffer and the cursor moves by one.
\<close>

theorem parse_terminates_one_level:
  "length (parseContentToFragments txt g m) \<le> length txt \<and>
   (i < length txt \<and> scan (drop i txt) g m = Emit f n \<longrightarrow> i < i + n \<and> i + n \<le> length txt) \<and>
   (i < length txt \<and> ref_end (drop i txt) = Some e \<and> substring 2 e (drop i txt) = u \<and>
    blocks g u = Some b \<and> content b \<noteq> [] \<longrightarrow>
      parse_loop txt g m i buf frs =
        frs @ flushBuffer buf @ [block_ref_fragment (content b) u] @
        parseContentToFragments (drop (i + (e + 2)) txt) g m) \<and>
   (i < length txt \<and> embed_end (drop i txt) = Some e \<and> substring 10 e (drop i txt) = u \<and>
    blocks g u = Some b \<and> content b \<noteq> [] \<longrightarrow>
      parse_loop txt g m i buf frs =
        frs @ flushBuffer buf @ [block_ref_fragment (content b) u] @
        parseContentToFragments (drop (i + (e + 4)) txt) g m) \<and>
   (i < length txt \<and> unclosed_delimiter (drop i txt) \<and> attachment_search (drop i txt) = None \<longrightarrow>
      parse_loop txt g m i buf frs = parse_loop txt g m (Suc i) (buf @ [txt ! i]) frs)"
proof -
  have A: "length (parseContentToFragments txt g m) \<le> length txt"
    using parse_loop_length[of "txt" g m 0 "[]"]
    by (simp add: parseContentToFragments_def flushBuffer_def)
  have B: "i < length txt \<and> scan (drop i txt) g m = Emit f n \<longrightarrow> i < i + n \<and> i + n \<le> length txt"
  proof
    assume "i < length txt \<and> scan (drop i txt) g m = Emit f n"
    then have "i < length txt" "scan (drop i txt) g m = Emit f n" by auto
    from scan_within[OF this(2)] this(1) show "i < i + n \<and> i + n \<le> length txt" by auto
  qed
  have C: "i < length txt \<and> ref_end (drop i txt) = Some e \<and> substring 2 e (drop i txt) = u \<and>
    blocks g u = Some b \<and> content b \<noteq> [] \<longrightarrow>
      parse_loop txt g m i buf frs =
        frs @ flushBuffer buf @ [block_ref_fragment (content b) u] @
        parseContentToFragments (drop (i + (e + 2)) txt) g m"
  proof
    assume h: "i < length txt \<and> ref_end (drop i txt) = Some e \<and> substring 2 e (drop i txt) = u \<and>
      blocks g u = Some b \<and> content b \<noteq> []"
    then have "scan (drop i txt) g m = Emit (block_ref_fragment (content b) u) (e + 2)"
      by (auto simp: scan_ref block_ref_value_def)
    with h show "parse_loop txt g m i buf frs =
          frs @ flushBuffer buf @ [block_ref_fragment (content b) u] @
          parseContentToFragments (drop (i + (e + 2)) txt) g m"
      by (intro parse_loop_emit_rest) auto
  qed
  have D: "i < length txt \<and> embed_end (drop i txt) = Some e \<and> substring 10 e (drop i txt) = u \<and>
    blocks g u = Some b \<and> content b \<noteq> [] \<longrightarrow>
      parse_loop txt g m i buf frs =
        frs @ flushBuffer buf @ [block_ref_fragment (content b) u] @
        parseContentToFragments (drop (i + (e + 4)) txt) g m"
  proof
    assume h: "i < length txt \<and> embed_end (drop i txt) = Some e \<and> substring 10 e (drop i txt) = u \<and>
      blocks g u = Some b \<and> content b \<noteq> []"
    then have "scan (drop i txt) g m = Emit (block_ref_fragment (content b) u) (e + 4)"
      by (auto simp: scan_embed block_ref_value_def)
    with h show "parse_loop txt g m i buf frs =
          frs @ flushBuffer buf @ [block_ref_fragment (content b) u] @
          parseContentToFragments (drop (i + (e + 4)) txt) g m"
      by (intro parse_loop_emit_rest) auto
  qed
  have E: "i < length txt \<and> unclosed_delimiter (drop i txt) \<and> attachment_search (drop i txt) = None \<longrightarrow>
      parse_loop txt g m i buf frs = parse_loop txt g m (Suc i) (buf @ [txt ! i]) frs"
  proof
    assume h: "i < length txt \<and> unclosed_delimiter (drop i txt) \<and> attachment_search (drop i txt) = None"
    then have "scan (drop i txt) g m = Plain"
      by (simp add: scan_plain_iff unclosed_plain)
    with h show "parse_loop txt g m i buf frs = parse_loop txt g m (Suc i) (buf @ [txt ! i]) frs"
      by (intro parse_loop_plain) auto
  qed
  from A B C D E show ?thesis by (intro conjI)
qed

text \<open>
  A reference and an embed to the block \<open>a\<close> whose content is \<open>see ((a))\<close>, and the
  unclosed \<open>((a\<close>.
\<close>

theorem parse_terminates_one_level_witness:
  "1 < length (js ''x((a))'') \<and> ref_end (drop 1 (js ''x((a))'')) = Some 3 \<and>
   substring 2 3 (drop 1 (js ''x((a))'')) = js ''a'' \<and>
   map_option content (blocks cyclic_graph (js ''a'')) = Some (js ''see ((a))'') \<and>
   scan (drop 1 (js ''x((a))'')) cyclic_graph Map.empty =
     Emit (block_ref_fragment (js ''see ((a))'') (js ''a'')) 5 \<and>
   (1::nat) < 1 + 5 \<and> 1 + 5 \<le> length (js ''x((a))'') \<and>
   parse_loop (js ''x((a))'') cyclic_graph Map.empty 1 (js ''x'') [] =
     [text_fragment (js ''x''), block_ref_fragment (js ''see ((a))'') (js ''a'')] \<and>
   length (parseContentToFragments (js ''x((a))'') cyclic_graph Map.empty) \<le> 6 \<and>
   embed_end (drop 0 (js ''{{embed ((a))}}'')) = Some 11 \<and>
   parse_loop (js ''{{embed ((a))}}'') cyclic_graph Map.empty 0 [] [] =
     [block_ref_fragment (js ''see ((a))'') (js ''a'')] \<and>
   unclosed_delimiter (drop 0 (js ''((a'')) \<and> attachment_search (drop 0 (js ''((a'')) = None \<and>
   parse_loop (js ''((a'') cyclic_graph Map.empty 0 [] [] =
     parse_loop (js ''((a'') cyclic_graph Map.empty (Suc 0) (js ''('') []"
proof -
  define b where "b = \<lparr>block_id = Some (js ''a''), content = js ''see ((a))'',
                          properties = [], children = [], level = 0\<rparr>"
  have bb: "blocks cyclic_graph (js ''a'') = Some b" "content b = js ''see ((a))''"
    "content b \<noteq> []"
    unfolding b_def cyclic_graph_def by (simp_all add: js_def)
  have r: "1 < length (js ''x((a))'')" "ref_end (drop 1 (js ''x((a))'')) = Some 3"
      "substring 2 3 (drop 1 (js ''x((a))'')) = js ''a''"
      "scan (drop 1 (js ''x((a))'')) cyclic_graph Map.empty =
         Emit (block_ref_fragment (js ''see ((a))'') (js ''a'')) 5"
      "length (js ''x((a))'') = 6"
      "flushBuffer (js ''x'') = [text_fragment (js ''x'')]"
      "parseContentToFragments (drop (1 + (3 + 2)) (js ''x((a))'')) cyclic_graph Map.empty = []"
    by code_simp+
  have e: "0 < length (js ''{{embed ((a))}}'')" "embed_end (drop 0 (js ''{{embed ((a))}}'')) = Some 11"
      "substring 10 11 (drop 0 (js ''{{embed ((a))}}'')) = js ''a''"
      "flushBuffer [] = []"
      "parseContentToFragments (drop (0 + (11 + 4)) (js ''{{embed ((a))}}'')) cyclic_graph Map.empty = []"
    by code_simp+
  have d: "0 < length (js ''((a'')" "unclosed_delimiter (drop 0 (js ''((a''))"
      "attachment_search (drop 0 (js ''((a'')) = None" "[] @ [js ''((a'' ! 0] = js ''(''"
    by code_simp+
  note R = parse_terminates_one_level
     [of "js ''x((a))''" cyclic_graph Map.empty 1 "block_ref_fragment (js ''see ((a))'') (js ''a'')" 5
         3 "js ''a''" b "js ''x''" "[]"]
  note E = parse_terminates_one_level
     [of "js ''{{embed ((a))}}''" cyclic_graph Map.empty 0 _ _ 11 "js ''a''" b "[]" "[]"]
  note D = parse_terminates_one_level
     [of "js ''((a''" cyclic_graph Map.empty 0 _ _ _ _ _ "[]" "[]"]
  from R have r0: "length (parseContentToFragments (js ''x((a))'') cyclic_graph Map.empty) \<le> 6"
    unfolding r(5) by blast
  from R r(1,4) have r1: "(1::nat) < 1 + 5 \<and> 1 + 5 \<le> length (js ''x((a))'')" by blast
  from R r(1,2,3) bb(1,3)
  have "parse_loop (js ''x((a))'') cyclic_graph Map.empty 1 (js ''x'') [] =
        [] @ flushBuffer (js ''x'') @ [block_ref_fragment (content b) (js ''a'')] @
        parseContentToFragments (drop (1 + (3 + 2)) (js ''x((a))'')) cyclic_graph Map.empty"
    by blast
  then have r2: "parse_loop (js ''x((a))'') cyclic_graph Map.empty 1 (js ''x'') [] =
     [text_fragment (js ''x''), block_ref_fragment (js ''see ((a))'') (js ''a'')]"
    unfolding r(6,7) bb(2) by simp
  from E e(1,2,3) bb(1,3)
  have "parse_loop (js ''{{embed ((a))}}'') cyclic_graph Map.empty 0 [] [] =
        [] @ flushBuffer [] @ [block_ref_fragment (content b) (js ''a'')] @
        parseContentToFragments (drop (0 + (11 + 4)) (js ''{{embed ((a))}}'')) cyclic_graph Map.empty"
    by blast
  then have e2: "parse_loop (js ''{{embed ((a))}}'') cyclic_graph Map.empty 0 [] [] =
     [block_ref_fragment (js ''see ((a))'') (js ''a'')]"
    unfolding e(4,5) bb(2) by simp
  from D d(1,2,3)
  have "parse_loop (js ''((a'') cyclic_graph Map.empty 0 [] [] =
     parse_loop (js ''((a'') cyclic_graph Map.empty (Suc 0) ([] @ [js ''((a'' ! 0]) []"
    by blast
  then have d2: "parse_loop (js ''((a'') cyclic_graph Map.empty 0 [] [] =
     parse_loop (js ''((a'') cyclic_graph Map.empty (Suc 0) (js ''('') []"
    unfolding d(4) .
  have m: "map_option content (blocks cyclic_graph (js ''a'')) = Some (js ''see ((a))'')"
    using bb by simp
  from r(1,2,3,4) r0 r1 r2 e(2) e2 d(2,3) d2 m show ?thesis by blast
qed

text \<open>
  Claim C7 as stated fails on \<open>[[x](y)\<close>: the \<open>[[\<close> has no \<open>]]\<close>, but its first
  character does not go to the plain-text buffer; the attachment recognizer, next in
  the precedence order, matches \<open>[[x](y)\<close> at the cursor.
\<close>

theorem unclosed_link_counterexample:
  "unclosed_delimiter (js ''[[x](y)'') \<and>
   scan (js ''[[x](y)'') empty_graph Map.empty =
     Emit (text_fragment (attachmentNotFound (js ''y''))) 7 \<and>
   parse_loop (js ''[[x](y)'') empty_graph Map.empty 0 [] [] \<noteq>
     parse_loop (js ''[[x](y)'') empty_graph Map.empty (Suc 0) (js ''['') [] \<and>
   parseContentToFragments (js ''[[x](y)'') empty_graph Map.empty =
     [text_fragment (attachmentNotFound (js ''y''))]"
  by code_simp

subsection \<open>A block with empty content\<close>

text \<open>
  Claim C10, as amended. If the block index maps \<open>u\<close> to a block whose content is the
  empty string, then for every text the result is the one for the graph without \<open>u\<close>,
  and whenever the cursor of the loop stands at a closed reference \<open>((u))\<close> or embed
  \<open>{{embed ((u))}}\<close> the fragment pushed carries the block-not-found placeholder, which
  ends in \<open>u\<close>, and not the empty string.
\<close>

theorem empty_block_placeholder:
  "blocks g u = Some b \<and> content b = [] \<longrightarrow>
     parseContentToFragments txt g m =
       parseContentToFragments txt (g\<lparr>blocks := (blocks g)(u := None)\<rparr>) m \<and>
     (i < length txt \<and> ref_end (drop i txt) = Some e \<and> substring 2 e (drop i txt) = u \<longrightarrow>
        parse_loop txt g m i buf frs =
          frs @ flushBuffer buf @ [block_ref_fragment (blockNotFound u) u] @
          parseContentToFragments (drop (i + (e + 2)) txt) g m) \<and>
     (i < length txt \<and> embed_end (drop i txt) = Some e \<and> substring 10 e (drop i txt) = u \<longrightarrow>
        parse_loop txt g m i buf frs =
          frs @ flushBuffer buf @ [block_ref_fragment (blockNotFound u) u] @
          parseContentToFragments (drop (i + (e + 4)) txt) g m)"
proof
  assume h: "blocks g u = Some b \<and> content b = []"
  have "\<forall>x. block_ref_value g x = block_ref_value (g\<lparr>blocks := (blocks g)(u := None)\<rparr>) x"
    using h by (simp add: block_ref_value_def)
  then have A: "parseContentToFragments txt g m =
       parseContentToFragments txt (g\<lparr>blocks := (blocks g)(u := None)\<rparr>) m"
    unfolding parseContentToFragments_def by (rule parse_loop_graph_cong)
  have B: "i < length txt \<and> ref_end (drop i txt) = Some e \<and> substring 2 e (drop i txt) = u \<longrightarrow>
        parse_loop txt g m i buf frs =
          frs @ flushBuffer buf @ [block_ref_fragment (blockNotFound u) u] @
          parseContentToFragments (drop (i + (e + 2)) txt) g m"
  proof
    assume k: "i < length txt \<and> ref_end (drop i txt) = Some e \<and> substring 2 e (drop i txt) = u"
    with h have "scan (drop i txt) g m = Emit (block_ref_fragment (blockNotFound u) u) (e + 2)"
      by (auto simp: scan_ref block_ref_value_def)
    with k show "parse_loop txt g m i buf frs =
          frs @ flushBuffer buf @ [block_ref_fragment (blockNotFound u) u] @
          parseContentToFragments (drop (i + (e + 2)) txt) g m"
      by (intro parse_loop_emit_rest) auto
  qed
  have C: "i < length txt \<and> embed_end (drop i txt) = Some e \<and> substring 10 e (drop i txt) = u \<longrightarrow>
        parse_loop txt g m i buf frs =
          frs @ flushBuffer buf @ [block_ref_fragment (blockNotFound u) u] @
          parseContentToFragments (drop (i + (e + 4)) txt) g m"
  proof
    assume k: "i < length txt \<and> embed_end (drop i txt) = Some e \<and> substring 10 e (drop i txt) = u"
    with h have "scan (drop i txt) g m = Emit (block_ref_fragment (blockNotFound u) u) (e + 4)"
      by (auto simp: scan_embed block_ref_value_def)
    with k show "parse_loop txt g m i buf frs =
          frs @ flushBuffer buf @ [block_ref_fragment (blockNotFound u) u] @
          parseContentToFragments (drop (i + (e + 4)) txt) g m"
      by (intro parse_loop_emit_rest) auto
  qed
  from A B C show "parseContentToFragments txt g m =
       parseContentToFragments txt (g\<lparr>blocks := (blocks g)(u := None)\<rparr>) m \<and>
     (i < length txt \<and> ref_end (drop i txt) = Some e \<and> substring 2 e (drop i txt) = u \<longrightarrow>
        parse_loop txt g m i buf frs =
          frs @ flushBuffer buf @ [block_ref_fragment (blockNotFound u) u] @
          parseContentToFragments (drop (i + (e + 2)) txt) g m) \<and>
     (i < length txt \<and> embed_end (drop i txt) = Some e \<and> substring 10 e (drop i txt) = u \<longrightarrow>
        parse_loop txt g m i buf frs =
          frs @ flushBuffer buf @ [block_ref_fragment (blockNotFound u) u] @
          parseContentToFragments (drop (i + (e + 4)) txt) g m)"
    by (intro conjI)
qed

theorem empty_block_placeholder_witness:
  "blocks empty_block_graph (js ''u'') = Some empty_block \<and> content empty_block = [] \<and>
   0 < length (js ''((u))'') \<and> ref_end (drop 0 (js ''((u))'')) = Some 3 \<and>
   substring 2 3 (drop 0 (js ''((u))'')) = js ''u'' \<and>
   parse_loop (js ''((u))'') empty_block_graph Map.empty 0 [] [] =
     [block_ref_fragment (blockNotFound (js ''u'')) (js ''u'')] \<and>
   0 < length (js ''{{embed ((u))}}'') \<and> embed_end (drop 0 (js ''{{embed ((u))}}'')) = Some 11 \<and>
   substring 10 11 (drop 0 (js ''{{embed ((u))}}'')) = js ''u'' \<and>
   parse_loop (js ''{{embed ((u))}}'') empty_block_graph Map.empty 0 [] [] =
     [block_ref_fragment (blockNotFound (js ''u'')) (js ''u'')] \<and>
   parseContentToFragments (js ''((u))'') empty_block_graph Map.empty =
     parseContentToFragments (js ''((u))'')
       (empty_block_graph\<lparr>blocks := (blocks empty_block_graph)(js ''u'' := None)\<rparr>) Map.empty"
proof -
  have g: "blocks empty_block_graph (js ''u'') = Some empty_block" "content empty_block = []"
    by (simp_all add: empty_block_graph_def empty_block_def)
  have r: "0 < length (js ''((u))'')" "ref_end (drop 0 (js ''((u))'')) = Some 3"
      "substring 2 3 (drop 0 (js ''((u))'')) = js ''u''"
      "parseContentToFragments (drop (0 + (3 + 2)) (js ''((u))'')) empty_block_graph Map.empty = []"
      "flushBuffer [] = []"
    by code_simp+
  have e: "0 < length (js ''{{embed ((u))}}'')" "embed_end (drop 0 (js ''{{embed ((u))}}'')) = Some 11"
      "substring 10 11 (drop 0 (js ''{{embed ((u))}}'')) = js ''u''"
      "parseContentToFragments (drop (0 + (11 + 4)) (js ''{{embed ((u))}}'')) empty_block_graph Map.empty = []"
    by code_simp+
  note R = empty_block_placeholder
     [of empty_block_graph "js ''u''" empty_block "js ''((u))''" Map.empty 0 3 "[]" "[]"]
  note E = empty_block_placeholder
     [of empty_block_graph "js ''u''" empty_block "js ''{{embed ((u))}}''" Map.empty 0 11 "[]" "[]"]
  from R g have r1: "parseContentToFragments (js ''((u))'') empty_block_graph Map.empty =
     parseContentToFragments (js ''((u))'')
       (empty_block_graph\<lparr>blocks := (blocks empty_block_graph)(js ''u'' := None)\<rparr>) Map.empty"
    by blast
  from R g r(1,2,3) have "parse_loop (js ''((u))'') empty_block_graph Map.empty 0 [] [] =
          [] @ flushBuffer [] @ [block_ref_fragment (blockNotFound (js ''u'')) (js ''u'')] @
          parseContentToFragments (drop (0 + (3 + 2)) (js ''((u))'')) empty_block_graph Map.empty"
    by blast
  then have r2: "parse_loop (js ''((u))'') empty_block_graph Map.empty 0 [] [] =
     [block_ref_fragment (blockNotFound (js ''u'')) (js ''u'')]"
    unfolding r(4,5) by simp
  from E g e(1,2,3) have "parse_loop (js ''{{embed ((u))}}'') empty_block_graph Map.empty 0 [] [] =
          [] @ flushBuffer [] @ [block_ref_fragment (blockNotFound (js ''u'')) (js ''u'')] @
          parseContentToFragments (drop (0 + (11 + 4)) (js ''{{embed ((u))}}'')) empty_block_graph Map.empty"
    by blast
  then have e2: "parse_loop (js ''{{embed ((u))}}'') empty_block_graph Map.empty 0 [] [] =
     [block_ref_fragment (blockNotFound (js ''u'')) (js ''u'')]"
    unfolding e(4) r(5) by simp
  from g r(1,2,3) e(1,2,3) r1 r2 e2 show ?thesis by blast
qed

text \<open>
  Claim C10 as stated fails on a text that contains \<open>((u))\<close> inside a tag: the tag
  recognizer takes \<open>#t((u))\<close> at the cursor, and no fragment carries the placeholder.
\<close>

theorem reference_in_tag_counterexample:
  "map_option content (blocks empty_block_graph (js ''u'')) = Some [] \<and>
   indexOf (js ''((u))'') (js ''#t((u))'') = Some 2 \<and>
   parseContentToFragments (js ''#t((u))'') empty_block_graph Map.empty =
     [page_ref_fragment (js ''t((u))'')] \<and>
   \<not> list_ex (\<lambda>f. frag_v f = blockNotFound (js ''u''))
        (parseContentToFragments (js ''#t((u))'') empty_block_graph Map.empty)"
  by code_simp

subsection \<open>The attachment expression is not anchored at the cursor\<close>

text \<open>
  Claim C2 does not hold of the code. The attachment expression has no \<open>^\<close> and is
  searched in the whole rest of the text, while the loop adds the length of the match to
  the cursor as if the match started there. On \<open>abc [x](y)\<close> the match starts four
  places behind the cursor; the text \<open>abc [x\<close> never reaches the result and \<open>](y)\<close>
  is read twice, once inside the match and once as plain text.
\<close>

theorem attachment_match_beyond_cursor:
  "map_option (\<lambda>(idx, mt). (idx, fullMatch mt)) (attachment_search (js ''abc [x](y)'')) =
     Some (4, js ''[x](y)'') \<and>
   scan (js ''abc [x](y)'') empty_graph Map.empty =
     Emit (text_fragment (attachmentNotFound (js ''y''))) 6 \<and>
   parseContentToFragments (js ''abc [x](y)'') empty_graph Map.empty =
     [text_fragment (attachmentNotFound (js ''y'')), text_fragment (js ''](y)'')]"
  by code_simp


section \<open>The asset migrator without assets\<close>

text \<open>
  Claim C9. When no asset path is found in the pages of the batch,
  \<open>preUploadAssetsAndGetPathMap\<close> returns the empty map and leaves the trace as it was:
  no call to the host and no notification, hence no upload. When there are asset paths
  and opening the \<open>assets\<close> directory throws, the function returns normally, with the
  empty map (nothing is mapped before that call), after the call that failed and one
  error notification.
\<close>

theorem asset_migrator_tolerates:
  "(allAssetPaths pagesToImport = [] \<longrightarrow>
      preUploadAssetsAndGetPathMap h pagesToImport tr = (Map.empty, tr)) \<and>
   (allAssetPaths pagesToImport \<noteq> [] \<and> getDirectoryHandle h tr (js ''assets'') = Throws e \<longrightarrow>
      preUploadAssetsAndGetPathMap h pagesToImport tr =
        (Map.empty,
         tr @ [Call (GetDirectoryHandle (js ''assets'')), Notify (js ''error'') msg_no_assets_dir]))"
  by (simp add: preUploadAssetsAndGetPathMap_def upload_body_def Let_def)

text \<open>A page with one image under \<open>../assets/\<close>, a page without, and a host with no \<open>assets\<close> directory.\<close>

definition asset_page :: LogseqPage where
  "asset_page =
     parseLogseqFile \<lparr>path = js ''pages/P1.md'', file_content = js ''- see ![a](../assets/a.png)''\<rparr>"

definition plain_page :: LogseqPage where
  "plain_page =
     parseLogseqFile \<lparr>path = js ''pages/P2.md'', file_content = js ''- no asset [x](http://e)''\<rparr>"

definition no_assets_host :: host where
  "no_assets_host =
     \<lparr>getDirectoryHandle = (\<lambda>tr n. Throws (js ''NotFoundError'')),
      getFile = (\<lambda>tr p. Throws (js ''NotFoundError'')),
      uploadAssets = (\<lambda>tr fs. Returns None),
      insertBlock = (\<lambda>tr parent body ty. Returns (Num (Suc (length tr)))),
      setProperties = (\<lambda>tr b ps. Returns ()),
      getBlock = (\<lambda>tr b. Returns (Obj 0)),
      batchInsertReprs = (\<lambda>tr b rs. Returns ())\<rparr>"

theorem asset_migrator_tolerates_witness:
  "allAssetPaths [plain_page] = [] \<and>
   snd (preUploadAssetsAndGetPathMap no_assets_host [plain_page] []) = [] \<and>
   fst (preUploadAssetsAndGetPathMap no_assets_host [plain_page] []) = Map.empty \<and>
   allAssetPaths [asset_page, plain_page] = [js ''../assets/a.png''] \<and>
   getDirectoryHandle no_assets_host [] (js ''assets'') = Throws (js ''NotFoundError'') \<and>
   fst (preUploadAssetsAndGetPathMap no_assets_host [asset_page, plain_page] []) = Map.empty \<and>
   snd (preUploadAssetsAndGetPathMap no_assets_host [asset_page, plain_page] []) =
     [Call (GetDirectoryHandle (js ''assets'')), Notify (js ''error'') msg_no_assets_dir]"
proof -
  have a: "allAssetPaths [plain_page] = []"
    and b: "allAssetPaths [asset_page, plain_page] = [js ''../assets/a.png'']"
    by code_simp+
  have c: "getDirectoryHandle no_assets_host [] (js ''assets'') = Throws (js ''NotFoundError'')"
    by (simp add: no_assets_host_def)
  from b have b': "allAssetPaths [asset_page, plain_page] \<noteq> []" by simp
  note T1 = asset_migrator_tolerates[of "[plain_page]" no_assets_host "[]" "js ''NotFoundError''"]
  note T2 = asset_migrator_tolerates
              [of "[asset_page, plain_page]" no_assets_host "[]" "js ''NotFoundError''"]
  from T1 a have r1: "preUploadAssetsAndGetPathMap no_assets_host [plain_page] [] = (Map.empty, [])"
    by blast
  from T2 b' c have r2: "preUploadAssetsAndGetPathMap no_assets_host [asset_page, plain_page] [] =
     (Map.empty, [] @ [Call (GetDirectoryHandle (js ''assets'')), Notify (js ''error'') msg_no_assets_dir])"
    by blast
  show ?thesis using a b c r1 r2 by simp
qed


section \<open>A page whose import throws\<close>

text \<open>The call that creates the heading block of a page.\<close>

definition heading_call :: "LogseqPage \<Rightarrow> event" where
  "heading_call pg = Call (InsertBlock Undefined [text_fragment (name pg)] (js ''heading''))"

fun is_heading_call :: "event \<Rightarrow> bool" where
  "is_heading_call (Call (InsertBlock parent body ty)) = (ty = js ''heading'')"
| "is_heading_call e = False"

fun is_error_notification :: "event \<Rightarrow> bool" where
  "is_error_notification (Notify lv msg) = (lv = js ''error'')"
| "is_error_notification e = False"

text \<open>
  One page inside its boundary: the trace grows by the heading call, then by calls that
  are neither heading calls nor notifications.
\<close>

lemma import_page_trace:
  "\<exists>rest. snd (import_page h g m pg tr) = tr @ heading_call pg # rest \<and>
          (\<forall>e\<in>set rest. \<not> is_heading_call e \<and> \<not> is_error_notification e)"
  unfolding import_page_def Let_def heading_call_def
  by (auto split: reply.splits prod.splits if_splits)

lemma import_pages_trace:
  "filter is_heading_call (import_pages h g m pgs tr) =
     filter is_heading_call tr @ map heading_call pgs"
proof (induction pgs arbitrary: tr)
  case Nil
  then show ?case by simp
next
  case (Cons pg pgs)
  obtain r tr' where ip: "import_page h g m pg tr = (r, tr')" by (cases "import_page h g m pg tr")
  from import_page_trace[of h g m pg tr] ip obtain rest where
    tr': "tr' = tr @ heading_call pg # rest" and nh: "\<forall>e\<in>set rest. \<not> is_heading_call e" by auto
  have hc: "is_heading_call (heading_call pg)" by (simp add: heading_call_def)
  from nh have f: "filter is_heading_call rest = []" by (simp add: filter_empty_conv)
  have n: "\<And>e. \<not> is_heading_call (Notify (js ''error'') e)" by simp
  show ?case
    using ip Cons.IH tr' hc f by (cases r) (simp_all)
qed

text \<open>A page whose import throws gets the error notification naming it, and the loop goes on.\<close>

lemma import_pages_failure:
  "import_page h g m pg tr = (Inl e, tr') \<Longrightarrow>
   import_pages h g m (pg # rest) tr =
     import_pages h g m rest (tr' @ [Notify (js ''error'') (msg_page_failed (name pg) e)])"
  by simp

lemma importPageBatch_returns: "fst (importPageBatch h pgs g tr) = Inr ()"
  by (simp add: importPageBatch_def split: prod.splits)

text \<open>A host on which creating the blocks of the page \<open>P1\<close> throws.\<close>

definition throwing_host :: host where
  "throwing_host =
     \<lparr>getDirectoryHandle = (\<lambda>tr n. Throws (js ''NotFoundError'')),
      getFile = (\<lambda>tr p. Throws (js ''NotFoundError'')),
      uploadAssets = (\<lambda>tr fs. Returns None),
      insertBlock = (\<lambda>tr parent body ty.
         if body = [text_fragment (js ''first'')] then Throws (js ''boom'')
         else Returns (Num (Suc (length tr)))),
      setProperties = (\<lambda>tr b ps. Returns ()),
      getBlock = (\<lambda>tr b. Returns (Obj 0)),
      batchInsertReprs = (\<lambda>tr b rs.
         if map repr_content rs = [[text_fragment (js ''first'')]] then Throws (js ''boom'')
         else Returns ())\<rparr>"

definition page_one :: LogseqPage where
  "page_one = parseLogseqFile \<lparr>path = js ''pages/P1.md'', file_content = js ''- first''\<rparr>"

definition page_two :: LogseqPage where
  "page_two = parseLogseqFile \<lparr>path = js ''pages/P2.md'', file_content = js ''- second''\<rparr>"

text \<open>
  Claim C4 does not hold of the code. \<open>importPageBatch\<close> of lines 21--75 creates the
  blocks of each page outside of any \<open>try\<close>: on a batch of two pages where creating the
  block of the first page throws, the error ends the loop over the pages, no
  notification names the page, and the second page is never begun.
  \<open>importPageBatch\<close> of lines 326--379, on the same batch and host, catches the error,
  notifies it with the name of the page and the message, and goes on with the second
  page.
\<close>

theorem pass1_aborts_on_page_failure:
  "fst (import_pass1 throwing_host [page_one, page_two] (Map.empty, [])) = Inl (js ''boom'') \<and>
   snd (snd (import_pass1 throwing_host [page_one, page_two] (Map.empty, []))) =
     [heading_call page_one,
      Call (InsertBlock (Num 1) [text_fragment (js ''first'')] (js ''text''))] \<and>
   heading_call page_two \<notin>
     set (snd (snd (import_pass1 throwing_host [page_one, page_two] (Map.empty, [])))) \<and>
   snd (importPageBatch throwing_host [page_one, page_two] empty_graph []) =
     [Notify (js ''info'') msg_assets_start, Notify (js ''success'') msg_assets_done,
      heading_call page_one, Call (GetBlock (Num 3)),
      Call (BatchInsertReprs (Obj 0)
        [\<lparr>repr_type = js ''text'', repr_content = [text_fragment (js ''first'')], indent = 0,
          repr_properties = None\<rparr>]),
      Notify (js ''error'') (msg_page_failed (js ''P1'') (js ''boom'')),
      heading_call page_two, Call (GetBlock (Num 7)),
      Call (BatchInsertReprs (Obj 0)
        [\<lparr>repr_type = js ''text'', repr_content = [text_fragment (js ''second'')], indent = 0,
          repr_properties = None\<rparr>])]"
  by code_simp


section \<open>Batches of fifty pages\<close>

























end
